theory Spec2Isabelle
  imports Complex_Main "HOL-Library.Word" "HOL-Library.Log_Nat"
begin

section \<open>Python values: exceptions, floats, strings\<close>

text \<open>
  The exceptions that \<^verbatim>\<open>line_sticker_resize.py\<close> and the library calls it makes can
  raise. A function that can raise returns \<open>error + 'a\<close>, with \<open>Inl\<close> for the exception.
\<close>

datatype error =
    ValueError string
  | ZeroDivisionError
  | OverflowError
  | IndexError

subsection \<open>Floats (IEEE 754 binary64)\<close>

text \<open>
  A Python float is an IEEE 754 binary64 number. A finite float is represented by its exact
  rational value, and every operation is the exact operation followed by rounding to the
  nearest binary64 (ties to even), which is what the hardware does. Subnormals are covered
  by the fixed quantum \<open>2 ^ - 1074\<close>; a rounded magnitude of \<open>2 ^ 1024\<close> or more stands for
  an infinity. Signed zeros and NaN do not arise in this program and are not represented.
\<close>

type_synonym float = rat

definition pow2 :: "int \<Rightarrow> rat" where
  "pow2 e = (if 0 \<le> e then of_int (2 ^ nat e) else 1 / of_int (2 ^ nat (- e)))"

text \<open>\<open>ilog2 x\<close> is the binary exponent of a positive \<open>x\<close>: \<open>2 ^ e \<le> x < 2 ^ (e + 1)\<close>.\<close>

definition ilog2 :: "rat \<Rightarrow> int" where
  "ilog2 x = (if 1 \<le> x then bitlen \<lfloor>x\<rfloor> - 1 else - bitlen (\<lceil>1 / x\<rceil> - 1))"

definition round_half_even :: "rat \<Rightarrow> int" where
  "round_half_even x =
     (let f = \<lfloor>x\<rfloor>; d = x - of_int f
      in if d < 1 / 2 then f else if 1 / 2 < d then f + 1 else if even f then f else f + 1)"

text \<open>Rounding of an exact value to binary64: a 53-bit significand, exponent at least \<open>- 1022\<close>.\<close>

definition fl :: "rat \<Rightarrow> float" where
  "fl x = (if x = 0 then 0
     else let e = max (ilog2 \<bar>x\<bar>) (- 1022) - 52
          in sgn x * of_int (round_half_even (\<bar>x\<bar> / pow2 e)) * pow2 e)"

definition is_inf :: "float \<Rightarrow> bool" where
  "is_inf x = (x \<noteq> 0 \<and> 1024 \<le> ilog2 \<bar>x\<bar>)"

text \<open>\<^verbatim>\<open>a / b\<close> on two ints: the correctly rounded quotient.\<close>

definition py_truediv :: "int \<Rightarrow> int \<Rightarrow> error + float" where
  "py_truediv a b =
     (if b = 0 then Inl ZeroDivisionError
      else let q = fl (of_int a / of_int b) in if is_inf q then Inl OverflowError else Inr q)"

text \<open>An int operand of a float operation is converted to float first.\<close>

definition float_of_int :: "int \<Rightarrow> float" where
  "float_of_int i = fl (of_int i)"

definition float_mul :: "float \<Rightarrow> float \<Rightarrow> float" where
  "float_mul x y = fl (x * y)"

text \<open>\<^verbatim>\<open>min(a, b)\<close> returns \<open>a\<close> unless \<open>b < a\<close>.\<close>

definition py_min :: "float \<Rightarrow> float \<Rightarrow> float" where
  "py_min a b = (if b < a then b else a)"

text \<open>\<^verbatim>\<open>round(x)\<close> rounds half to even and returns an int; \<^verbatim>\<open>int(x)\<close> truncates towards
  zero. Both raise OverflowError on an infinity.\<close>

definition py_round :: "float \<Rightarrow> error + int" where
  "py_round x = (if is_inf x then Inl OverflowError else Inr (round_half_even x))"

definition py_int :: "float \<Rightarrow> error + int" where
  "py_int x = (if is_inf x then Inl OverflowError
               else Inr (if 0 \<le> x then \<lfloor>x\<rfloor> else \<lceil>x\<rceil>))"

function sqrt_floor :: "int \<Rightarrow> int" where
  "sqrt_floor n = (if n < 2 then n
     else let r = 2 * sqrt_floor (n div 4) in if (r + 1) * (r + 1) \<le> n then r + 1 else r)"
  by pat_completeness auto
termination
  by (relation "measure nat") auto

declare sqrt_floor.simps [simp del]

text \<open>
  \<^verbatim>\<open>x ** 0.5\<close> for a float \<open>x \<ge> 0\<close> calls the C library's \<^verbatim>\<open>pow\<close>; it is modelled as the
  correctly rounded square root. The base is a quotient of two non-negative ints wherever
  the program takes this power, so it is never negative. The theorems below use of this
  function only that it maps 0 to 0 and \<open>[0, 1]\<close> into \<open>[0, 1]\<close>.
\<close>

definition py_pow_half :: "float \<Rightarrow> float" where
  "py_pow_half x = (if x \<le> 0 then 0
     else let e = ilog2 x div 2 - 52;
              n = x / pow2 (2 * e);
              s = sqrt_floor \<lfloor>n\<rfloor>;
              c = of_int (s * s + s) + 1 / 4;
              m = (if n < c then s else if c < n then s + 1 else if even s then s else s + 1)
          in of_int m * pow2 e)"

subsection \<open>Strings\<close>

text \<open>
  A Python \<^verbatim>\<open>str\<close> is modelled as a \<open>string\<close> whose characters are the code points
  0 to 255. \<open>py_isspace\<close> is \<^verbatim>\<open>str.isspace\<close> on one such character, the set that
  \<^verbatim>\<open>str.strip()\<close> removes.
\<close>

definition py_isspace :: "char \<Rightarrow> bool" where
  "py_isspace c = (let n = (of_char c :: nat)
     in (9 \<le> n \<and> n \<le> 13) \<or> (28 \<le> n \<and> n \<le> 32) \<or> n = 133 \<or> n = 160)"

definition strip :: "string \<Rightarrow> string" where
  "strip s = rev (dropWhile py_isspace (rev (dropWhile py_isspace s)))"

text \<open>
  \<^verbatim>\<open>int(s, 16)\<close> on a \<^verbatim>\<open>str\<close>. CPython maps every non-ASCII space to a blank, then skips
  blanks of the C locale on both sides, takes an optional sign, an optional \<^verbatim>\<open>0x\<close> prefix
  (with one underscore allowed after it) and a non-empty run of hexadecimal digits in which
  single underscores may separate digits.
\<close>

definition c_isspace :: "char \<Rightarrow> bool" where
  "c_isspace c = (let n = (of_char c :: nat) in (9 \<le> n \<and> n \<le> 13) \<or> n = 32)"

definition space_to_ascii :: "char \<Rightarrow> char" where
  "space_to_ascii c = (if 127 \<le> (of_char c :: nat) \<and> py_isspace c then CHR '' '' else c)"

definition digit_value :: "char \<Rightarrow> int option" where
  "digit_value c = (let n = (of_char c :: nat)
     in if 48 \<le> n \<and> n \<le> 57 then Some (int n - 48)
        else if 97 \<le> n \<and> n \<le> 102 then Some (int n - 87)
        else if 65 \<le> n \<and> n \<le> 70 then Some (int n - 55)
        else None)"

fun long_digits :: "char \<Rightarrow> string \<Rightarrow> int \<Rightarrow> int option" where
  "long_digits prev [] acc = (if prev = CHR ''_'' then None else Some acc)"
| "long_digits prev (c # cs) acc =
     (if c = CHR ''_'' then (if prev = CHR ''_'' then None else long_digits c cs acc)
      else case digit_value c of
             None \<Rightarrow> None
           | Some d \<Rightarrow> long_digits c cs (16 * acc + d))"

definition invalid_literal :: error where
  "invalid_literal = ValueError ''invalid literal for int() with base 16''"

definition py_int16 :: "string \<Rightarrow> error + int" where
  "py_int16 s =
     (let t = dropWhile c_isspace (map space_to_ascii s);
          t = rev (dropWhile c_isspace (rev t));
          neg = (t \<noteq> [] \<and> hd t = CHR ''-'');
          t = (if t \<noteq> [] \<and> (hd t = CHR ''+'' \<or> hd t = CHR ''-'') then tl t else t);
          t = (if take 2 t = ''0x'' \<or> take 2 t = ''0X''
               then (if take 1 (drop 2 t) = ''_'' then drop 3 t else drop 2 t)
               else t)
      in if t = [] \<or> hd t = CHR ''_'' then Inl invalid_literal
         else case long_digits (CHR 0x00) t 0 of
                None \<Rightarrow> Inl invalid_literal
              | Some v \<Rightarrow> Inr (if neg then - v else v))"

section \<open>Colour utilities\<close>

type_synonym rgb = "int \<times> int \<times> int"

definition parse_hex_color :: "string \<Rightarrow> error + rgb" where
  "parse_hex_color s0 =
     (let s = strip s0;
          s = (if take 1 s = ''#'' then drop 1 s else s);
          s = (if length s = 3 then concat (map (\<lambda>ch. [ch, ch]) s) else s)
      in if length s \<noteq> 6
         then Inl (ValueError ''Hex color must be 3 or 6 hex digits, e.g. #fff or #ffffff'')
         else (case py_int16 (take 2 s) of Inl e \<Rightarrow> Inl e | Inr r \<Rightarrow>
              (case py_int16 (take 2 (drop 2 s)) of Inl e \<Rightarrow> Inl e | Inr g \<Rightarrow>
              (case py_int16 (take 2 (drop 4 s)) of Inl e \<Rightarrow> Inl e | Inr b \<Rightarrow>
               Inr (r, g, b)))))"

fun color_distance_sq :: "rgb \<Rightarrow> rgb \<Rightarrow> int" where
  "color_distance_sq (a0, a1, a2) (b0, b1, b2) =
     (a0 - b0) ^ 2 + (a1 - b1) ^ 2 + (a2 - b2) ^ 2"

section \<open>Images\<close>

text \<open>
  A Pillow image: its mode, its size and its pixels. The pixel store \<open>px\<close> holds, for
  every coordinate, the 8-bit RGBA value that \<^verbatim>\<open>convert('RGBA')\<close> gives the pixel, so that
  converting to RGBA changes the mode only; for an image in mode RGBA these are the
  pixels themselves. Coordinates outside the image are never read. Pillow keeps the two
  sizes in C ints, so they are below \<open>2 ^ 31\<close> and their conversion to float is exact.
\<close>

type_synonym pixel = "8 word \<times> 8 word \<times> 8 word \<times> 8 word"

record image =
  mode :: string
  width :: nat
  height :: nat
  px :: "nat \<times> nat \<Rightarrow> pixel"

definition convert_RGBA :: "image \<Rightarrow> image" where
  "convert_RGBA im = im\<lparr>mode := ''RGBA''\<rparr>"

text \<open>\<^verbatim>\<open>getpixel\<close>: a negative index counts from the far edge; out of range raises.\<close>

definition getpixel :: "image \<Rightarrow> int \<times> int \<Rightarrow> error + pixel" where
  "getpixel im xy =
     (let w = int (width im); h = int (height im);
          x = (if fst xy < 0 then w + fst xy else fst xy);
          y = (if snd xy < 0 then h + snd xy else snd xy)
      in if x < 0 \<or> w \<le> x \<or> y < 0 \<or> h \<le> y then Inl IndexError
         else Inr (px im (nat x, nat y)))"

text \<open>Storing a channel clips the int to 0..255.\<close>

definition clip8 :: "int \<Rightarrow> 8 word" where
  "clip8 v = (if v < 0 then 0 else if 255 < v then 255 else word_of_int v)"

definition Image_new :: "string \<Rightarrow> int \<times> int \<Rightarrow> pixel \<Rightarrow> error + image" where
  "Image_new m sz color =
     (if fst sz < 0 \<or> snd sz < 0 then Inl (ValueError ''Width and height must be >= 0'')
      else Inr \<lparr>mode = m, width = nat (fst sz), height = nat (snd sz), px = (\<lambda>_. color)\<rparr>)"

text \<open>
  \<^verbatim>\<open>Image.resize\<close> returns a copy when the requested size is the image's own, and an
  image of the requested size otherwise. The resampling filter that computes the new
  pixels (Lanczos here) is a parameter of the model.
\<close>

type_synonym resampler = "image \<Rightarrow> nat \<times> nat \<Rightarrow> nat \<times> nat \<Rightarrow> pixel"

definition resize :: "resampler \<Rightarrow> image \<Rightarrow> nat \<times> nat \<Rightarrow> image" where
  "resize filt im sz =
     (if (width im, height im) = sz then im
      else \<lparr>mode = mode im, width = fst sz, height = snd sz, px = filt im sz\<rparr>)"

text \<open>
  \<^verbatim>\<open>Image.paste(im, (x, y), mask)\<close> with an RGBA mask: the mask's alpha band weights, in
  every band (alpha included), the pasted pixel against the pixel already there: where the
  mask is 255 the source is copied, where it is 0 the destination is kept. \<open>blend8\<close> is
  Pillow's 8-bit blend, a rounding division by 255. The region is clipped to the
  destination.
\<close>

definition blend8 :: "8 word \<Rightarrow> 8 word \<Rightarrow> 8 word \<Rightarrow> 8 word" where
  "blend8 m out inp =
     (let t = unat out * (255 - unat m) + unat inp * unat m + 128
      in of_nat ((t div 256 + t) div 256))"

fun blend_pixel :: "8 word \<Rightarrow> pixel \<Rightarrow> pixel \<Rightarrow> pixel" where
  "blend_pixel m (r0, g0, b0, a0) (r1, g1, b1, a1) =
     (blend8 m r0 r1, blend8 m g0 g1, blend8 m b0 b1, blend8 m a0 a1)"

fun alpha :: "pixel \<Rightarrow> 8 word" where
  "alpha (r, g, b, a) = a"

definition paste :: "image \<Rightarrow> image \<Rightarrow> int \<times> int \<Rightarrow> image \<Rightarrow> error + image" where
  "paste dst src xy msk =
     (if (width msk, height msk) \<noteq> (width src, height src)
      then Inl (ValueError ''images do not match'')
      else Inr (dst\<lparr>px := (\<lambda>(X, Y).
             let sx = int X - fst xy; sy = int Y - snd xy
             in if X < width dst \<and> Y < height dst \<and>
                   0 \<le> sx \<and> sx < int (width src) \<and> 0 \<le> sy \<and> sy < int (height src)
                then blend_pixel (alpha (px msk (nat sx, nat sy))) (px dst (X, Y))
                       (px src (nat sx, nat sy))
                else px dst (X, Y))\<rparr>))"

section \<open>Background detector\<close>

text \<open>
  \<^verbatim>\<open>collections.Counter\<close> keeps its keys in the order of first insertion;
  \<^verbatim>\<open>most_common()\<close> sorts the entries by decreasing count with a stable sort.
\<close>

fun counter_add :: "'a \<Rightarrow> ('a \<times> nat) list \<Rightarrow> ('a \<times> nat) list" where
  "counter_add c [] = [(c, 1)]"
| "counter_add c ((k, n) # kvs) =
     (if k = c then (k, n + 1) # kvs else (k, n) # counter_add c kvs)"

definition Counter :: "'a list \<Rightarrow> ('a \<times> nat) list" where
  "Counter xs = foldl (\<lambda>m c. counter_add c m) [] xs"

definition most_common :: "('a \<times> nat) list \<Rightarrow> ('a \<times> nat) list" where
  "most_common kvs = sort_key (\<lambda>kv. - int (snd kv)) kvs"

fun collect_colors :: "image \<Rightarrow> (int \<times> int) list \<Rightarrow> rgb list \<Rightarrow> error + rgb list" where
  "collect_colors im [] colors = Inr colors"
| "collect_colors im (xy # rest) colors =
     (case getpixel im xy of
        Inl e \<Rightarrow> Inl e
      | Inr (r, g, b, a) \<Rightarrow> collect_colors im rest (colors @ [(uint r, uint g, uint b)]))"

definition detect_bg_color :: "image \<Rightarrow> error + rgb" where
  "detect_bg_color im =
     (let px = convert_RGBA im; w = int (width px); h = int (height px);
          corners = [(0, 0), (w - 1, 0), (0, h - 1), (w - 1, h - 1)]
      in case collect_colors px corners [] of
           Inl e \<Rightarrow> Inl e
         | Inr colors \<Rightarrow>
            (let cnt = most_common (Counter colors)
             in if cnt = [] then Inr (255, 255, 255)
                else let max_freq = snd (cnt ! 0);
                         candidates = map fst (filter (\<lambda>cf. snd cf = max_freq) cnt)
                     in if length candidates = 1 then Inr (candidates ! 0)
                        else let n = int (length candidates);
                                 r = sum_list (map (\<lambda>c. fst c) candidates) div n;
                                 g = sum_list (map (\<lambda>c. fst (snd c)) candidates) div n;
                                 b = sum_list (map (\<lambda>c. snd (snd c)) candidates) div n
                             in Inr (r, g, b)))"

section \<open>Background keyer\<close>

text \<open>A \<^verbatim>\<open>for\<close> loop over a list of indices; an exception in the body ends the loop.\<close>

fun for_each :: "('i \<Rightarrow> 's \<Rightarrow> error + 's) \<Rightarrow> 'i list \<Rightarrow> 's \<Rightarrow> error + 's" where
  "for_each body [] s = Inr s"
| "for_each body (i # rest) s =
     (case body i s of Inl e \<Rightarrow> Inl e | Inr s' \<Rightarrow> for_each body rest s')"

text \<open>The body of the two loops of \<^verbatim>\<open>make_bg_transparent\<close>, on the pixel store.\<close>

definition key_pixel ::
  "rgb \<Rightarrow> int \<Rightarrow> nat \<times> nat \<Rightarrow> (nat \<times> nat \<Rightarrow> pixel) \<Rightarrow> error + (nat \<times> nat \<Rightarrow> pixel)" where
  "key_pixel bg tol_sq xy store =
     (case store xy of (r, g, b, a) \<Rightarrow>
        if uint a = 0 then Inr store
        else let dist_sq = color_distance_sq (uint r, uint g, uint b) bg
             in if dist_sq \<le> tol_sq
                then (case py_truediv dist_sq tol_sq of
                        Inl e \<Rightarrow> Inl e
                      | Inr q \<Rightarrow>
                         (let distance_ratio = py_pow_half q
                          in case py_int (float_mul (float_of_int (uint a)) distance_ratio) of
                               Inl e \<Rightarrow> Inl e
                             | Inr new_alpha \<Rightarrow> Inr (store(xy := (r, g, b, clip8 new_alpha)))))
                else Inr store)"

definition make_bg_transparent :: "image \<Rightarrow> rgb \<Rightarrow> int \<Rightarrow> error + image" where
  "make_bg_transparent im0 bg tolerance =
     (let im = convert_RGBA im0; w = width im; h = height im;
          tol_sq = tolerance * tolerance * 3
      in case for_each (\<lambda>y. for_each (\<lambda>x. key_pixel bg tol_sq (x, y)) [0..<w]) [0..<h] (px im) of
           Inl e \<Rightarrow> Inl e
         | Inr store \<Rightarrow> Inr (im\<lparr>px := store\<rparr>))"

section \<open>Resize-and-pad transformer\<close>

definition TARGET_W :: int where "TARGET_W = 370"
definition TARGET_H :: int where "TARGET_H = 320"

definition resize_and_pad :: "resampler \<Rightarrow> image \<Rightarrow> int \<Rightarrow> int \<Rightarrow> error + image" where
  "resize_and_pad lanczos im0 target_w target_h =
     (let im = convert_RGBA im0; w = int (width im); h = int (height im)
      in if w = 0 \<or> h = 0 then Inl (ValueError ''Image has invalid dimensions'')
         else (case py_truediv target_w w of Inl e \<Rightarrow> Inl e | Inr sw \<Rightarrow>
              (case py_truediv target_h h of Inl e \<Rightarrow> Inl e | Inr sh \<Rightarrow>
              (let scale = py_min sw sh
               in case py_round (float_mul (float_of_int w) scale) of Inl e \<Rightarrow> Inl e | Inr rw \<Rightarrow>
                 (case py_round (float_mul (float_of_int h) scale) of Inl e \<Rightarrow> Inl e | Inr rh \<Rightarrow>
                 (let new_w = max 1 rw; new_h = max 1 rh;
                      resized = resize lanczos im (nat new_w, nat new_h)
                  in case Image_new ''RGBA'' (target_w, target_h) (0, 0, 0, 0) of
                       Inl e \<Rightarrow> Inl e
                     | Inr canvas \<Rightarrow>
                        (let x = (target_w - new_w) div 2; y = (target_h - new_h) div 2
                         in paste canvas resized (x, y) resized)))))))"

section \<open>Definitions used to state the properties\<close>

text \<open>The RGB triple of a pixel, as the ints that Python reads from it.\<close>

fun rgb_of :: "pixel \<Rightarrow> rgb" where
  "rgb_of (r, g, b, a) = (uint r, uint g, uint b)"

text \<open>
  What one pass of the loop body of \<^verbatim>\<open>make_bg_transparent\<close> leaves at a pixel when the
  threshold \<open>t\<close> is positive: \<open>new_alpha a d t\<close> is \<^verbatim>\<open>int(a * (d / t) ** 0.5)\<close>.
\<close>

definition new_alpha :: "int \<Rightarrow> int \<Rightarrow> int \<Rightarrow> int" where
  "new_alpha a d t = \<lfloor>fl (of_int a * py_pow_half (fl (of_int d / of_int t)))\<rfloor>"

fun keyed :: "rgb \<Rightarrow> int \<Rightarrow> pixel \<Rightarrow> pixel" where
  "keyed bg t (r, g, b, a) =
     (let d = color_distance_sq (uint r, uint g, uint b) bg
      in if uint a = 0 \<or> t < d then (r, g, b, a)
         else (r, g, b, clip8 (new_alpha (uint a) d t)))"

text \<open>Concrete images for the instances below.\<close>

definition white_dot :: image where
  "white_dot = \<lparr>mode = ''RGBA'', width = 1, height = 1, px = (\<lambda>_. (255, 255, 255, 255))\<rparr>"

definition sample :: image where
  "sample = \<lparr>mode = ''RGBA'', width = 2, height = 2,
     px = (\<lambda>(x, y). if y = 0 then (if x = 0 then (10, 20, 30, 255) else (12, 21, 33, 200))
                     else (if x = 0 then (200, 100, 50, 255) else (10, 20, 30, 0)))\<rparr>"

definition empty_strip :: image where
  "empty_strip = \<lparr>mode = ''RGBA'', width = 0, height = 5, px = (\<lambda>_. (0, 0, 0, 0))\<rparr>"

text \<open>
  The layout that \<^verbatim>\<open>resize_and_pad\<close> computes, named step by step: the scale
  \<^verbatim>\<open>min(target_w / w, target_h / h)\<close>, the rounded content size with its minimum of 1,
  and the centring offset.
\<close>

definition fit_scale :: "int \<Rightarrow> int \<Rightarrow> int \<Rightarrow> int \<Rightarrow> float" where
  "fit_scale tw th w h = py_min (fl (of_int tw / of_int w)) (fl (of_int th / of_int h))"

definition fit_size :: "int \<Rightarrow> int \<Rightarrow> int \<Rightarrow> int \<Rightarrow> int \<times> int" where
  "fit_size tw th w h =
     (max 1 (round_half_even (float_mul (float_of_int w) (fit_scale tw th w h))),
      max 1 (round_half_even (float_mul (float_of_int h) (fit_scale tw th w h))))"

definition center_offset :: "int \<Rightarrow> int \<Rightarrow> int \<times> int \<Rightarrow> int \<times> int" where
  "center_offset tw th sz = ((tw - fst sz) div 2, (th - snd sz) div 2)"

text \<open>The content as resized for the 370 by 320 canvas.\<close>

definition fitted :: "resampler \<Rightarrow> image \<Rightarrow> image" where
  "fitted filt im =
     (let sz = fit_size 370 320 (int (width im)) (int (height im))
      in resize filt (convert_RGBA im) (nat (fst sz), nat (snd sz)))"

text \<open>
  The fully transparent canvas, a pixel blended onto it with its own alpha as the mask, and
  the pixel that a source image pasted at an offset leaves at a canvas coordinate.
\<close>

definition blank :: "nat \<Rightarrow> nat \<Rightarrow> image" where
  "blank w h = \<lparr>mode = ''RGBA'', width = w, height = h, px = (\<lambda>_. (0, 0, 0, 0))\<rparr>"

definition over_transparent :: "pixel \<Rightarrow> pixel" where
  "over_transparent p = blend_pixel (alpha p) (0, 0, 0, 0) p"

definition placed :: "image \<Rightarrow> int \<times> int \<Rightarrow> nat \<times> nat \<Rightarrow> pixel" where
  "placed src off XY =
     (let sx = int (fst XY) - fst off; sy = int (snd XY) - snd off
      in if 0 \<le> sx \<and> sx < int (width src) \<and> 0 \<le> sy \<and> sy < int (height src)
         then over_transparent (px src (nat sx, nat sy))
         else (0, 0, 0, 0))"

text \<open>The pixel of a result at a coordinate, when there is a result.\<close>

definition result_pixel :: "error + image \<Rightarrow> nat \<times> nat \<Rightarrow> error + pixel" where
  "result_pixel r xy = (case r of Inl e \<Rightarrow> Inl e | Inr im \<Rightarrow> Inr (px im xy))"

text \<open>A concrete resampler (nearest neighbour) and further concrete images.\<close>

definition nearest :: resampler where
  "nearest im sz = (\<lambda>(x, y). px im (x * width im div fst sz, y * height im div snd sz))"

definition half_faded :: image where
  "half_faded = \<lparr>mode = ''RGBA'', width = 370, height = 320,
     px = (\<lambda>(x, y). if x < 185 then (200, 100, 50, 255) else (200, 100, 50, 128))\<rparr>"

definition portrait :: image where
  "portrait = \<lparr>mode = ''RGB'', width = 100, height = 200, px = (\<lambda>_. (200, 100, 50, 255))\<rparr>"

text \<open>
  A valid colour string: an optional \<open>#\<close> followed by 3 or 6 hexadecimal digits.
  \<open>expand\<close> doubles the digits of the short form, \<open>hex_rgb\<close> reads the three byte
  pairs, and \<open>swapcase\<close> is \<^verbatim>\<open>str.swapcase\<close> on an ASCII character.
\<close>

definition is_hex_digit :: "char \<Rightarrow> bool" where
  "is_hex_digit c = (digit_value c \<noteq> None)"

definition color_body :: "string \<Rightarrow> string" where
  "color_body s = (if take 1 s = ''#'' then drop 1 s else s)"

definition valid_color :: "string \<Rightarrow> bool" where
  "valid_color s = ((length (color_body s) = 3 \<or> length (color_body s) = 6)
                    \<and> list_all is_hex_digit (color_body s))"

definition swapcase :: "char \<Rightarrow> char" where
  "swapcase c = (let n = (of_char c :: nat)
     in if 97 \<le> n \<and> n \<le> 122 then char_of (n - 32)
        else if 65 \<le> n \<and> n \<le> 90 then char_of (n + 32)
        else c)"

definition pair_value :: "char \<Rightarrow> char \<Rightarrow> int" where
  "pair_value a b = 16 * the (digit_value a) + the (digit_value b)"

definition expand :: "string \<Rightarrow> string" where
  "expand t = (if length t = 3 then concat (map (\<lambda>ch. [ch, ch]) t) else t)"

definition hex_rgb :: "string \<Rightarrow> rgb" where
  "hex_rgb t = (pair_value (t ! 0) (t ! 1), pair_value (t ! 2) (t ! 3), pair_value (t ! 4) (t ! 5))"

text \<open>
  The four sampled corner colours, a colour that occurs strictly more often than every
  other sampled colour, the colours of maximal frequency, and the channel-wise
  floor-division average of a set of colours.
\<close>

definition corner_colors :: "image \<Rightarrow> rgb list" where
  "corner_colors im = map (\<lambda>p. rgb_of (px im p))
     [(0, 0), (width im - 1, 0), (0, height im - 1), (width im - 1, height im - 1)]"

definition strict_winner :: "rgb list \<Rightarrow> rgb \<Rightarrow> bool" where
  "strict_winner cs c = (c \<in> set cs \<and> (\<forall>d\<in>set cs. d \<noteq> c \<longrightarrow> count_list cs d < count_list cs c))"

definition tied :: "rgb list \<Rightarrow> rgb set" where
  "tied cs = {c \<in> set cs. \<forall>d\<in>set cs. count_list cs d \<le> count_list cs c}"

definition average :: "rgb set \<Rightarrow> rgb" where
  "average S = (sum (\<lambda>c. fst c) S div int (card S),
                sum (\<lambda>c. fst (snd c)) S div int (card S),
                sum (\<lambda>c. snd (snd c)) S div int (card S))"

definition striped :: image where
  "striped = \<lparr>mode = ''RGB'', width = 3, height = 2,
     px = (\<lambda>(x, y). if y = 0 then (10, 20, 30, 255) else (21, 41, 61, 255))\<rparr>"

section \<open>Rounding to binary64\<close>

lemma pow2_powi: "pow2 e = 2 powi e"
  by (simp add: pow2_def power_int_def power_inverse field_simps)

lemma pow2_pos [simp]: "0 < pow2 e"
  by (simp add: pow2_powi)

lemma pow2_nat: "pow2 (int k) = 2 ^ k"
  by (simp add: pow2_def)

lemma pow2_neg_nat: "pow2 (- int k) = 1 / 2 ^ k"
  by (simp add: pow2_powi power_int_minus field_simps)

lemma pow2_add: "pow2 (a + b) = pow2 a * pow2 b"
  by (simp add: pow2_powi power_int_add)

lemma pow2_mono: "a \<le> b \<Longrightarrow> pow2 a \<le> pow2 b"
  by (simp add: pow2_powi power_int_increasing)

lemma pow2_less_iff: "pow2 a < pow2 b \<longleftrightarrow> a < b"
proof
  assume "pow2 a < pow2 b"
  then show "a < b"
    using pow2_mono [of b a] by (cases "a < b") auto
next
  assume "a < b"
  then show "pow2 a < pow2 b"
    by (simp add: pow2_powi power_int_strict_increasing)
qed

lemma ilog2_bounds:
  assumes "0 < x"
  shows "pow2 (ilog2 x) \<le> x" and "x < pow2 (ilog2 x + 1)"
proof -
  have "pow2 (ilog2 x) \<le> x \<and> x < pow2 (ilog2 x + 1)"
  proof (cases "1 \<le> x")
    case True
    define f where "f = \<lfloor>x\<rfloor>"
    have f1: "1 \<le> f" using True by (simp add: f_def le_floor_iff)
    then have f0: "0 < f" by simp
    have bl: "1 \<le> bitlen f" using f0 by (simp add: bitlen_alt_def)
    have b1: "2 ^ nat (bitlen f - 1) \<le> f" and b2: "f < 2 ^ nat (bitlen f)"
      using bitlen_bounds [OF f0] by auto
    have il: "ilog2 x = bitlen f - 1" using True by (simp add: ilog2_def f_def)
    have "pow2 (bitlen f - 1) = of_int (2 ^ nat (bitlen f - 1))"
      using bl by (simp add: pow2_def)
    also have "\<dots> \<le> of_int f" using b1 by (simp only: of_int_le_iff)
    also have "\<dots> \<le> x" by (simp add: f_def)
    finally have lo: "pow2 (ilog2 x) \<le> x" by (simp add: il)
    have "x < of_int (f + 1)" using floor_correct [of x] by (simp add: f_def)
    also have "\<dots> \<le> of_int (2 ^ nat (bitlen f))"
      using b2 by (simp only: of_int_le_iff)
    also have "\<dots> = pow2 (bitlen f)" using bl by (simp add: pow2_def)
    finally have "x < pow2 (ilog2 x + 1)" by (simp add: il)
    with lo show ?thesis by simp
  next
    case False
    define y where "y = 1 / x"
    have y1: "1 < y" using False assms by (simp add: y_def)
    define m where "m = \<lceil>y\<rceil> - 1"
    have m1: "1 \<le> m" using y1 by (simp add: m_def less_ceiling_iff)
    then have m0: "0 < m" by simp
    have my: "of_int m < y" using ceiling_correct [of y] by (simp add: m_def)
    have ym: "y \<le> of_int (m + 1)" by (simp add: m_def)
    define k where "k = bitlen m"
    have k1: "1 \<le> k" using m0 by (simp add: k_def bitlen_alt_def)
    have b1: "2 ^ nat (k - 1) \<le> m" and b2: "m < 2 ^ nat k"
      using bitlen_bounds [OF m0] by (auto simp: k_def)
    have il: "ilog2 x = - k" using False by (simp add: ilog2_def k_def m_def y_def)
    have xy: "x = 1 / y" using assms by (simp add: y_def)
    have "y \<le> of_int (2 ^ nat k)"
      using ym b2 by (meson add1_zle_eq of_int_le_iff order_trans)
    then have "y \<le> 2 ^ nat k" by simp
    then have "1 / 2 ^ nat k \<le> 1 / y"
      using y1 by (intro divide_left_mono) auto
    moreover have "pow2 (- k) = 1 / 2 ^ nat k"
      using k1 pow2_neg_nat [of "nat k"] by simp
    ultimately have lo: "pow2 (ilog2 x) \<le> x" by (simp only: il xy [symmetric])
    have "(2::rat) ^ nat (k - 1) = of_int (2 ^ nat (k - 1))" by simp
    also have "\<dots> \<le> of_int m" using b1 by (simp only: of_int_le_iff)
    also have "\<dots> < y" by (rule my)
    finally have "1 / y < 1 / 2 ^ nat (k - 1)"
      using y1 by (intro divide_strict_left_mono) auto
    moreover have "pow2 (- k + 1) = 1 / 2 ^ nat (k - 1)"
      using k1 pow2_neg_nat [of "nat (k - 1)"] by simp
    ultimately have "x < pow2 (ilog2 x + 1)" by (simp only: il xy [symmetric])
    with lo show ?thesis by simp
  qed
  then show "pow2 (ilog2 x) \<le> x" and "x < pow2 (ilog2 x + 1)" by auto
qed

lemma round_half_even_le: "x \<le> of_int N \<Longrightarrow> round_half_even x \<le> N"
proof -
  assume a: "x \<le> of_int N"
  have fl: "\<lfloor>x\<rfloor> \<le> N" using a by (simp add: floor_le_iff) 
  show ?thesis
  proof (cases "\<lfloor>x\<rfloor> = N")
    case True
    then have "x = of_int N" using a floor_correct [of x] by simp
    then show ?thesis by (simp add: round_half_even_def)
  next
    case False
    with fl have "\<lfloor>x\<rfloor> + 1 \<le> N" by simp
    then show ?thesis by (auto simp: round_half_even_def Let_def)
  qed
qed

lemma round_half_even_ge: "of_int N \<le> x \<Longrightarrow> N \<le> round_half_even x"
proof -
  assume "of_int N \<le> x"
  then have "N \<le> \<lfloor>x\<rfloor>" by (simp add: le_floor_iff)
  then show ?thesis by (auto simp: round_half_even_def Let_def)
qed

lemma round_half_even_le_double: "0 \<le> x \<Longrightarrow> of_int (round_half_even x) \<le> 2 * x"
proof -
  assume x0: "0 \<le> x"
  have f: "of_int \<lfloor>x\<rfloor> \<le> x" by simp
  have f0: "0 \<le> \<lfloor>x\<rfloor>" using x0 by simp
  show ?thesis
  proof (cases "x - of_int \<lfloor>x\<rfloor> < 1 / 2")
    case True
    then have "round_half_even x = \<lfloor>x\<rfloor>" by (simp add: round_half_even_def)
    then show ?thesis using of_int_floor_le [of x] x0 by linarith
  next
    case False
    then have "round_half_even x \<le> \<lfloor>x\<rfloor> + 1" by (simp add: round_half_even_def Let_def)
    then have "of_int (round_half_even x) \<le> (of_int (\<lfloor>x\<rfloor> + 1) :: rat)"
      by (simp only: of_int_le_iff)
    also have "\<dots> \<le> 2 * x"
    proof -
      have "0 \<le> (of_int \<lfloor>x\<rfloor> :: rat)" using f0 by simp
      then show ?thesis using False by linarith
    qed
    finally show ?thesis .
  qed
qed

lemma fl_zero [simp]: "fl 0 = 0"
  by (simp add: fl_def)

lemma fl_nonneg: "0 \<le> x \<Longrightarrow> 0 \<le> fl x"
proof -
  assume x0: "0 \<le> x"
  have "0 \<le> round_half_even (\<bar>x\<bar> / pow2 e)" for e
    by (rule round_half_even_ge) (simp add: less_imp_le [OF pow2_pos])
  then show ?thesis using x0
    by (simp add: fl_def Let_def less_imp_le [OF pow2_pos])
qed

lemma fl_nonpos: "x \<le> 0 \<Longrightarrow> fl x \<le> 0"
proof -
  assume x0: "x \<le> 0"
  have "0 \<le> round_half_even (\<bar>x\<bar> / pow2 e)" for e
    by (rule round_half_even_ge) (simp add: less_imp_le [OF pow2_pos])
  then have "0 \<le> of_int (round_half_even (\<bar>x\<bar> / pow2 e)) * pow2 e" for e
    by (simp add: less_imp_le [OF pow2_pos])
  then show ?thesis using x0
    by (auto simp: fl_def Let_def sgn_if mult.assoc)
qed

lemma fl_pos_eq:
  "0 < x \<Longrightarrow> fl x = of_int (round_half_even (x / pow2 (max (ilog2 x) (- 1022) - 52)))
     * pow2 (max (ilog2 x) (- 1022) - 52)"
  by (simp add: fl_def Let_def)

lemma fl_le_double: "0 \<le> x \<Longrightarrow> fl x \<le> 2 * x"
proof (cases "x = 0")
  case True
  then show ?thesis by simp
next
  case False
  assume "0 \<le> x"
  with False have x0: "0 < x" by simp
  define u where "u = pow2 (max (ilog2 x) (- 1022) - 52)"
  have u0: "0 < u" by (simp add: u_def)
  have "of_int (round_half_even (x / u)) \<le> 2 * (x / u)"
    using x0 u0 by (intro round_half_even_le_double) simp
  then have "of_int (round_half_even (x / u)) * u \<le> 2 * (x / u) * u"
    using u0 by (simp only: mult_le_cancel_right_pos)
  then show ?thesis using u0 by (simp add: fl_pos_eq [OF x0] u_def [symmetric])
qed

lemma ilog2_less: "0 < x \<Longrightarrow> x < pow2 e \<Longrightarrow> ilog2 x < e"
  using ilog2_bounds(1) [of x] pow2_less_iff [of "ilog2 x" e] by simp

lemma ilog2_ge: "0 < x \<Longrightarrow> pow2 e \<le> x \<Longrightarrow> e \<le> ilog2 x"
  using ilog2_bounds(2) [of x] pow2_less_iff [of e "ilog2 x + 1"] by simp

text \<open>Rounding never crosses an integer below \<open>2 ^ 53\<close>.\<close>

lemma fl_le_int:
  assumes "x \<le> of_int n" and "0 \<le> n" and "x < 2 ^ 53"
  shows "fl x \<le> of_int n"
proof (cases "0 < x")
  case False
  then have "fl x \<le> 0" by (intro fl_nonpos) simp
  then show ?thesis using assms(2) by (meson of_int_0_le_iff order_trans)
next
  case True
  define e where "e = max (ilog2 x) (- 1022) - 52"
  have "x < pow2 53" using assms(3) pow2_nat [of 53] by simp
  then have "ilog2 x < 53" using True by (rule ilog2_less [rotated])
  then have e0: "e \<le> 0" by (simp add: e_def)
  define k where "k = nat (- e)"
  have pe: "pow2 e = 1 / 2 ^ k" using e0 pow2_neg_nat [of k] by (simp add: k_def)
  have "x / pow2 e = x * 2 ^ k" by (simp add: pe)
  also have "\<dots> \<le> of_int n * 2 ^ k" using assms(1) by simp
  also have "\<dots> = of_int (n * 2 ^ k)" by simp
  finally have "round_half_even (x / pow2 e) \<le> n * 2 ^ k" by (rule round_half_even_le)
  then have "of_int (round_half_even (x / pow2 e)) \<le> (of_int (n * 2 ^ k) :: rat)"
    by (simp only: of_int_le_iff)
  then have "of_int (round_half_even (x / pow2 e)) * pow2 e \<le> of_int (n * 2 ^ k) * pow2 e"
    by (simp only: mult_le_cancel_right_pos [OF pow2_pos])
  also have "\<dots> = of_int n" by (simp add: pe)
  finally show ?thesis by (simp only: fl_pos_eq [OF True] e_def)
qed

lemma fl_ge_int:
  assumes "of_int n \<le> x" and "0 \<le> n" and "x < 2 ^ 53"
  shows "of_int n \<le> fl x"
proof (cases "0 < x")
  case False
  then have "n = 0" using assms(1,2) by (metis of_int_0_le_iff of_int_eq_0_iff not_less order_antisym order_trans of_int_0)
  moreover have "x = 0" using False assms(1,2) by (metis calculation not_less of_int_0 order_antisym_conv)
  ultimately show ?thesis by simp
next
  case True
  define e where "e = max (ilog2 x) (- 1022) - 52"
  have "x < pow2 53" using assms(3) pow2_nat [of 53] by simp
  then have "ilog2 x < 53" using True by (rule ilog2_less [rotated])
  then have e0: "e \<le> 0" by (simp add: e_def)
  define k where "k = nat (- e)"
  have pe: "pow2 e = 1 / 2 ^ k" using e0 pow2_neg_nat [of k] by (simp add: k_def)
  have "of_int (n * 2 ^ k) = of_int n * (2::rat) ^ k" by simp
  also have "\<dots> \<le> x * 2 ^ k" using assms(1) by simp
  also have "\<dots> = x / pow2 e" by (simp add: pe)
  finally have "n * 2 ^ k \<le> round_half_even (x / pow2 e)" by (rule round_half_even_ge)
  then have "(of_int (n * 2 ^ k) :: rat) \<le> of_int (round_half_even (x / pow2 e))"
    by (simp only: of_int_le_iff)
  then have le: "of_int (n * 2 ^ k) * pow2 e \<le> of_int (round_half_even (x / pow2 e)) * pow2 e"
    by (simp only: mult_le_cancel_right_pos [OF pow2_pos])
  have eq: "of_int (n * 2 ^ k) * pow2 e = of_int n" by (simp add: pe)
  from le have "of_int n \<le> of_int (round_half_even (x / pow2 e)) * pow2 e" by (simp only: eq)
  then show ?thesis by (simp only: fl_pos_eq [OF True] e_def)
qed

lemma float_of_int_exact: "0 \<le> n \<Longrightarrow> n < 2 ^ 53 \<Longrightarrow> float_of_int n = of_int n"
proof -
  assume n: "0 \<le> n" "n < 2 ^ 53"
  then have "(of_int n :: rat) < of_int (2 ^ 53)" by (simp only: of_int_less_iff)
  then have lt: "(of_int n :: rat) < 2 ^ 53" by simp
  show ?thesis
    unfolding float_of_int_def
    using fl_le_int [of "of_int n" n] fl_ge_int [of n "of_int n"] n lt by simp
qed

lemma not_is_inf: "\<bar>x\<bar> < 2 ^ 1024 \<Longrightarrow> \<not> is_inf x"
proof
  assume a: "\<bar>x\<bar> < 2 ^ 1024" and "is_inf x"
  then have "x \<noteq> 0" and i: "1024 \<le> ilog2 \<bar>x\<bar>" by (auto simp: is_inf_def)
  then have "0 < \<bar>x\<bar>" by simp
  then have "pow2 (ilog2 \<bar>x\<bar>) \<le> \<bar>x\<bar>" by (rule ilog2_bounds)
  moreover have "pow2 1024 \<le> pow2 (ilog2 \<bar>x\<bar>)" using i by (rule pow2_mono)
  moreover have "pow2 1024 = 2 ^ 1024" using pow2_nat [of 1024] by simp
  ultimately show False using a by simp
qed

section \<open>The square root\<close>

lemma sqrt_floor_spec:
  "0 \<le> n \<Longrightarrow> 0 \<le> sqrt_floor n \<and> sqrt_floor n * sqrt_floor n \<le> n
     \<and> n < (sqrt_floor n + 1) * (sqrt_floor n + 1)"
proof (induction n rule: sqrt_floor.induct)
  case (1 n)
  show ?case
  proof (cases "n < 2")
    case True
    with "1.prems" have "n = 0 \<or> n = 1" by auto
    then show ?thesis by (auto simp: sqrt_floor.simps [of 0] sqrt_floor.simps [of 1])
  next
    case False
    define r0 where "r0 = sqrt_floor (n div 4)"
    have d0: "0 \<le> n div 4" using "1.prems" by simp
    from "1.IH" [OF False d0]
    have ih: "0 \<le> r0" "r0 * r0 \<le> n div 4" "n div 4 < (r0 + 1) * (r0 + 1)"
      by (simp_all add: r0_def)
    have lo: "4 * (r0 * r0) \<le> n" using ih(2) by linarith
    have "n div 4 + 1 \<le> (r0 + 1) * (r0 + 1)" using ih(3) by simp
    then have hi: "n < 4 * ((r0 + 1) * (r0 + 1))" by linarith
    have sq: "(2 * r0 + 1 + 1) * (2 * r0 + 1 + 1) = 4 * ((r0 + 1) * (r0 + 1))"
      by (simp add: algebra_simps)
    have sq0: "2 * r0 * (2 * r0) = 4 * (r0 * r0)" by simp
    show ?thesis
    proof (cases "(2 * r0 + 1) * (2 * r0 + 1) \<le> n")
      case True
      then have "sqrt_floor n = 2 * r0 + 1"
        using False by (subst sqrt_floor.simps) (simp add: r0_def Let_def)
      then show ?thesis using True hi ih(1) by (simp only: sq) simp
    next
      case c: False
      then have "sqrt_floor n = 2 * r0"
        using False by (subst sqrt_floor.simps) (simp add: r0_def Let_def)
      then show ?thesis using c lo ih(1) by (simp only: sq0) simp
    qed
  qed
qed

lemma py_pow_half_zero [simp]: "py_pow_half 0 = 0"
  by (simp add: py_pow_half_def)

lemma py_pow_half_unit:
  assumes "0 \<le> q" and "q \<le> 1"
  shows "0 \<le> py_pow_half q \<and> py_pow_half q \<le> 1"
proof (cases "q = 0")
  case True
  then show ?thesis by simp
next
  case False
  with assms have q0: "0 < q" by simp
  have "q < pow2 1" using assms(2) by (simp add: pow2_def)
  then have "ilog2 q < 1" using q0 by (rule ilog2_less [rotated])
  then have E0: "ilog2 q div 2 \<le> 0" by simp
  define e where "e = ilog2 q div 2 - 52"
  define k where "k = nat (- e)"
  define T :: int where "T = 2 ^ k"
  have e0: "e \<le> 0" using E0 by (simp add: e_def)
  have pe: "pow2 e = 1 / of_int T" using e0 pow2_neg_nat [of k] by (simp add: k_def T_def)
  have p2e: "pow2 (2 * e) = 1 / of_int (T * T)"
    using pow2_add [of e e] by (simp add: pe)
  have T0: "0 < T" by (simp add: T_def)
  define n where "n = q / pow2 (2 * e)"
  have n_eq: "n = q * of_int (T * T)" by (simp add: n_def p2e)
  have n_le: "n \<le> of_int (T * T)"
  proof -
    have "q * of_int (T * T) \<le> 1 * (of_int (T * T) :: rat)"
      using assms(2) T0 by (intro mult_right_mono) simp_all
    then show ?thesis by (simp add: n_eq)
  qed
  have n0: "0 \<le> n" using assms(1) T0 by (simp add: n_eq)
  define s where "s = sqrt_floor \<lfloor>n\<rfloor>"
  have fn0: "0 \<le> \<lfloor>n\<rfloor>" using n0 by simp
  have s0: "0 \<le> s" and s1: "s * s \<le> \<lfloor>n\<rfloor>"
    using sqrt_floor_spec [OF fn0] by (simp_all add: s_def)
  have fn_le: "\<lfloor>n\<rfloor> \<le> T * T" using n_le by (simp add: floor_le_iff) 
  have sT: "s \<le> T"
  proof (rule ccontr)
    assume "\<not> s \<le> T"
    then have "T + 1 \<le> s" by simp
    then have "(T + 1) * (T + 1) \<le> s * s" using T0 by (intro mult_mono) simp_all
    then show False using s1 fn_le T0 by (simp add: algebra_simps)
  qed
  define c :: rat where "c = of_int (s * s + s) + 1 / 4"
  define m where "m = (if n < c then s else if c < n then s + 1 else if even s then s else s + 1)"
  have m0: "0 \<le> m" using s0 by (simp add: m_def)
  have mT: "m \<le> T"
  proof (cases "s = T")
    case True
    have "n < c" 
    proof -
      have "n \<le> of_int (s * s)" using n_le True by simp
      also have "\<dots> < c" using s0 by (simp add: c_def)
      finally show ?thesis .
    qed
    then show ?thesis using True by (simp add: m_def)
  next
    case False
    with sT have "s + 1 \<le> T" by simp
    then show ?thesis by (simp add: m_def)
  qed
  have res: "py_pow_half q = of_int m * pow2 e"
    using q0 unfolding py_pow_half_def m_def c_def s_def n_def e_def by (simp add: Let_def)
  have "of_int m * pow2 e = of_int m / of_int T" by (simp add: pe)
  moreover have "0 \<le> (of_int m :: rat) / of_int T" using m0 T0 by simp
  moreover have "(of_int m :: rat) / of_int T \<le> 1" using mT T0 by simp
  ultimately show ?thesis by (simp add: res)
qed

section \<open>The keying loop\<close>

lemma for_each_update:
  assumes "\<And>i s. i \<in> set ixs \<Longrightarrow> body i s = Inr (\<lambda>p. if p \<in> locs i then g (s p) else s p)"
    and "distinct ixs"
    and "\<And>i j. i \<in> set ixs \<Longrightarrow> j \<in> set ixs \<Longrightarrow> i \<noteq> j \<Longrightarrow> locs i \<inter> locs j = {}"
  shows "for_each body ixs s = Inr (\<lambda>p. if p \<in> (\<Union>i\<in>set ixs. locs i) then g (s p) else s p)"
  using assms
proof (induction ixs arbitrary: s)
  case Nil
  then show ?case by simp
next
  case (Cons i rest)
  define s1 where "s1 = (\<lambda>p. if p \<in> locs i then g (s p) else s p)"
  have b: "body i s = Inr s1" using Cons.prems(1) [of i s] by (simp add: s1_def)
  have ih: "for_each body rest s1
      = Inr (\<lambda>p. if p \<in> (\<Union>j\<in>set rest. locs j) then g (s1 p) else s1 p)"
    using Cons.prems by (intro Cons.IH) auto
  have disj: "p \<in> (\<Union>j\<in>set rest. locs j) \<Longrightarrow> p \<notin> locs i" for p
    using Cons.prems(2,3) by fastforce
  have "(\<lambda>p. if p \<in> (\<Union>j\<in>set rest. locs j) then g (s1 p) else s1 p)
      = (\<lambda>p. if p \<in> (\<Union>j\<in>set (i # rest). locs j) then g (s p) else s p)"
    using disj by (auto simp: s1_def fun_eq_iff)
  then show ?case by (simp add: b ih)
qed

lemma color_distance_sq_nonneg: "0 \<le> color_distance_sq c bg"
  by (cases c; cases bg) simp

lemma ratio_unit:
  assumes "0 \<le> d" and "d \<le> t" and "0 < t"
  shows "0 \<le> fl (of_int d / of_int t)" and "fl (of_int d / of_int t) \<le> 1"
    and "py_truediv d t = Inr (fl (of_int d / of_int t))"
proof -
  have q0: "0 \<le> (of_int d :: rat) / of_int t" using assms by simp
  have q1: "(of_int d :: rat) / of_int t \<le> 1" using assms by simp
  show a: "0 \<le> fl (of_int d / of_int t)" using q0 by (rule fl_nonneg)
  have "fl (of_int d / of_int t) \<le> of_int 1"
    using q1 by (intro fl_le_int) (simp_all add: order_le_less_trans [OF q1])
  then show b: "fl (of_int d / of_int t) \<le> 1" by simp
  have "\<bar>fl (of_int d / of_int t)\<bar> < 2 ^ 1024"
    using a b by (simp add: order_le_less_trans [OF b])
  then show "py_truediv d t = Inr (fl (of_int d / of_int t))"
    using assms(3) by (simp add: py_truediv_def Let_def not_is_inf)
qed

lemma new_alpha_bounds:
  assumes "0 \<le> a" and "a \<le> 255" and "0 \<le> d" and "d \<le> t" and "0 < t"
  shows "0 \<le> new_alpha a d t" and "new_alpha a d t \<le> a"
    and "py_int (float_mul (float_of_int a) (py_pow_half (fl (of_int d / of_int t))))
           = Inr (new_alpha a d t)"
proof -
  define r where "r = py_pow_half (fl (of_int d / of_int t))"
  have r0: "0 \<le> r" and r1: "r \<le> 1"
    using py_pow_half_unit [OF ratio_unit(1,2) [OF assms(3,4,5)]] by (simp_all add: r_def)
  have ar0: "0 \<le> of_int a * r" using assms(1) r0 by simp
  have ar1: "of_int a * r \<le> of_int a"
    using assms(1) r1 by (simp add: mult_left_le)
  have big: "(of_int a :: rat) < 2 ^ 53"
  proof -
    have "(of_int a :: rat) \<le> of_int 255" using assms(2) by (simp only: of_int_le_iff)
    then show ?thesis by simp
  qed
  have f0: "0 \<le> fl (of_int a * r)" using ar0 by (rule fl_nonneg)
  have f1: "fl (of_int a * r) \<le> of_int a"
    using ar1 assms(1) by (rule fl_le_int) (rule order_le_less_trans [OF ar1 big])
  show "0 \<le> new_alpha a d t" using f0 by (simp add: new_alpha_def r_def [symmetric])
  show "new_alpha a d t \<le> a" using f1 by (simp add: new_alpha_def r_def [symmetric] floor_le_iff)
  have fa: "float_of_int a = of_int a"
    using assms(1,2) by (intro float_of_int_exact) simp_all
  have "\<bar>fl (of_int a * r)\<bar> < 2 ^ 1024"
    using f0 f1 big by simp
  then have "\<not> is_inf (fl (of_int a * r))" by (rule not_is_inf)
  then show "py_int (float_mul (float_of_int a) (py_pow_half (fl (of_int d / of_int t))))
           = Inr (new_alpha a d t)"
    using f0 by (simp add: py_int_def float_mul_def fa new_alpha_def r_def [symmetric])
qed

lemma key_pixel_keyed:
  assumes "0 < t"
  shows "key_pixel bg t xy store = Inr (store(xy := keyed bg t (store xy)))"
proof -
  obtain r g b a where p: "store xy = (r, g, b, a)" by (cases "store xy") auto
  define d where "d = color_distance_sq (uint r, uint g, uint b) bg"
  have d0: "0 \<le> d" by (simp add: d_def color_distance_sq_nonneg)
  have triv: "store(xy := (r, g, b, a)) = store" using p by (metis fun_upd_triv)
  show ?thesis
  proof (cases "uint a = 0 \<or> t < d")
    case True
    then show ?thesis by (auto simp: key_pixel_def p d_def Let_def triv)
  next
    case False
    then have dt: "d \<le> t" and a0: "uint a \<noteq> 0" by auto
    have a1: "0 \<le> uint a" "uint a \<le> 255"
      using uint_bounded [of a] by simp_all
    show ?thesis
      using False dt ratio_unit(3) [OF d0 dt assms]
        new_alpha_bounds(3) [OF a1 d0 dt assms]
      by (simp add: key_pixel_def p d_def [symmetric] Let_def)
  qed
qed

lemma make_bg_transparent_keyed:
  assumes "tolerance \<noteq> 0"
  shows "make_bg_transparent im bg tolerance
    = Inr (im\<lparr>mode := ''RGBA'',
            px := (\<lambda>p. if fst p < width im \<and> snd p < height im
                       then keyed bg (tolerance * tolerance * 3) (px im p) else px im p)\<rparr>)"
proof -
  define t where "t = tolerance * tolerance * 3"
  have t0: "0 < t" using assms by (auto simp: t_def zero_less_mult_iff)
  have inner: "for_each (\<lambda>x. key_pixel bg t (x, y)) [0..<width im] s
      = Inr (\<lambda>p. if p \<in> (\<Union>x\<in>set [0..<width im]. {(x, y)}) then keyed bg t (s p) else s p)"
    for y s
    by (rule for_each_update) (auto simp: key_pixel_keyed [OF t0] fun_eq_iff)
  have outer: "for_each (\<lambda>y. for_each (\<lambda>x. key_pixel bg t (x, y)) [0..<width im])
        [0..<height im] s
      = Inr (\<lambda>p. if p \<in> (\<Union>y\<in>set [0..<height im]. \<Union>x\<in>set [0..<width im]. {(x, y)})
                  then keyed bg t (s p) else s p)" for s
    by (rule for_each_update) (auto simp: inner)
  have set_eq: "(p \<in> (\<Union>y\<in>set [0..<height im]. \<Union>x\<in>set [0..<width im]. {(x, y)}))
      = (fst p < width im \<and> snd p < height im)" for p
    by (cases p) auto
  have outer': "for_each (\<lambda>y. for_each (\<lambda>x. key_pixel bg t (x, y)) [0..<width im])
        [0..<height im] s
      = Inr (\<lambda>p. if fst p < width im \<and> snd p < height im then keyed bg t (s p) else s p)"
    for s
    by (simp only: outer set_eq)
  show ?thesis
    by (simp add: make_bg_transparent_def convert_RGBA_def Let_def outer' [unfolded t_def])
qed

section \<open>Properties of the background keyer\<close>

lemma clip8_uint: "0 \<le> v \<Longrightarrow> v \<le> 255 \<Longrightarrow> uint (clip8 v) = v"
  by (simp add: clip8_def uint_word_of_int take_bit_int_eq_self)

lemma keyed_alpha_le:
  assumes "0 < t"
  shows "alpha (keyed bg t p) \<le> alpha p"
proof -
  obtain r g b a where p: "p = (r, g, b, a)" by (cases p) auto
  define d where "d = color_distance_sq (uint r, uint g, uint b) bg"
  have d0: "0 \<le> d" by (simp add: d_def color_distance_sq_nonneg)
  have a1: "0 \<le> uint a" "uint a \<le> 255" using uint_bounded [of a] by simp_all
  show ?thesis
  proof (cases "uint a = 0 \<or> t < d")
    case True
    then show ?thesis by (auto simp: p d_def Let_def)
  next
    case False
    then have dt: "d \<le> t" by simp
    note nb = new_alpha_bounds(1,2) [OF a1 d0 dt assms]
    have "uint (clip8 (new_alpha (uint a) d t)) = new_alpha (uint a) d t"
      using nb a1 by (intro clip8_uint) simp_all
    then have "clip8 (new_alpha (uint a) d t) \<le> a"
      using nb by (simp add: word_le_def)
    then show ?thesis using False by (simp add: p d_def [symmetric] Let_def)
  qed
qed

lemma keyed_transparent: "alpha p = 0 \<Longrightarrow> keyed bg t p = p"
  by (cases p) (simp add: Let_def)

lemma keyed_rgb: "rgb_of (keyed bg t p) = rgb_of p"
  by (cases p) (simp add: Let_def)

lemma keyed_far: "t < color_distance_sq (rgb_of p) bg \<Longrightarrow> keyed bg t p = p"
  by (cases p) (simp add: Let_def)

lemma keyed_exact:
  assumes "rgb_of p = bg" and "0 \<le> t"
  shows "alpha (keyed bg t p) = 0"
proof -
  obtain r g b a where p: "p = (r, g, b, a)" by (cases p) auto
  have d: "color_distance_sq (uint r, uint g, uint b) bg = 0"
    using assms by (auto simp: p)
  have "new_alpha (uint a) 0 t = 0" by (simp add: new_alpha_def)
  then show ?thesis using assms(2) by (auto simp: p d Let_def clip8_def uint_0_iff)
qed

lemma sample_px:
  "px sample (0, 0) = (10, 20, 30, 255)" "px sample (1, 0) = (12, 21, 33, 200)"
  "px sample (0, 1) = (200, 100, 50, 255)" "px sample (1, 1) = (10, 20, 30, 0)"
  "px sample (Suc 0, 0) = (12, 21, 33, 200)" "px sample (0, Suc 0) = (200, 100, 50, 255)"
  "px sample (Suc 0, Suc 0) = (10, 20, 30, 0)"
  "width sample = 2" "height sample = 2"
  by (simp_all add: sample_def)

lemma keyed_near: "keyed (10, 20, 30) 300 (12, 21, 33, 200) = (12, 21, 33, 43)"
  by code_simp

lemma sample_keyed:
  "make_bg_transparent sample (10, 20, 30) 10 = Inr out \<Longrightarrow> px out (1, 0) = (12, 21, 33, 43)"
  using make_bg_transparent_keyed [of 10 sample "(10, 20, 30)"]
  by (auto simp del: keyed.simps simp add: sample_px keyed_near)

text \<open>
  C3: for every image, background colour and tolerance greater than 0, keying returns an
  image in which every pixel's alpha is at most its alpha before, and every pixel whose
  alpha was 0 is unchanged.
\<close>

theorem keying_alpha_monotone:
  assumes "0 < tolerance"
  shows "\<exists>out. make_bg_transparent im bg tolerance = Inr out
           \<and> (\<forall>p. alpha (px out p) \<le> alpha (px im p))
           \<and> (\<forall>p. alpha (px im p) = 0 \<longrightarrow> px out p = px im p)"
proof -
  have t0: "0 < tolerance * tolerance * 3" using assms by simp
  from assms have "tolerance \<noteq> 0" by simp
  note eq = make_bg_transparent_keyed [OF this, of im bg]
  show ?thesis
    by (simp add: eq keyed_alpha_le [OF t0] keyed_transparent)
qed

theorem keying_alpha_monotone_witness:
  "\<exists>out. make_bg_transparent sample (10, 20, 30) 10 = Inr out
     \<and> px sample (1, 0) = (12, 21, 33, 200) \<and> px out (1, 0) = (12, 21, 33, 43)
     \<and> alpha (px out (1, 0)) \<le> alpha (px sample (1, 0))
     \<and> px sample (1, 1) = (10, 20, 30, 0) \<and> px out (1, 1) = (10, 20, 30, 0)"
proof -
  from keying_alpha_monotone [of 10 sample "(10, 20, 30)"] obtain out where
    out: "make_bg_transparent sample (10, 20, 30) 10 = Inr out"
    and le: "\<And>p. alpha (px out p) \<le> alpha (px sample p)"
    and tr: "\<And>p. alpha (px sample p) = 0 \<Longrightarrow> px out p = px sample p"
    by auto
  show ?thesis
    using out le [of "(1, 0)"] tr [of "(1, 1)"] sample_keyed [OF out]
    by (simp add: sample_px)
qed

text \<open>
  C4: with a tolerance greater than 0, every pixel of the image whose RGB value equals the
  background colour gets alpha 0, and every pixel whose squared colour distance from the
  background exceeds \<open>tolerance\<^sup>2 * 3\<close> is left unchanged.
\<close>

theorem keying_exact_match_and_far:
  assumes "0 < tolerance"
  shows "\<exists>out. make_bg_transparent im bg tolerance = Inr out
           \<and> (\<forall>x y. x < width im \<and> y < height im \<and> rgb_of (px im (x, y)) = bg
                 \<longrightarrow> alpha (px out (x, y)) = 0)
           \<and> (\<forall>x y. tolerance * tolerance * 3 < color_distance_sq (rgb_of (px im (x, y))) bg
                 \<longrightarrow> px out (x, y) = px im (x, y))"
proof -
  from assms have "tolerance \<noteq> 0" by simp
  note eq = make_bg_transparent_keyed [OF this, of im bg]
  show ?thesis
    using assms by (simp add: eq keyed_exact keyed_far)
qed

theorem keying_exact_match_and_far_witness:
  "\<exists>out. make_bg_transparent sample (10, 20, 30) 10 = Inr out
     \<and> px sample (0, 0) = (10, 20, 30, 255) \<and> alpha (px out (0, 0)) = 0
     \<and> color_distance_sq (rgb_of (px sample (0, 1))) (10, 20, 30) = 42900
     \<and> px out (0, 1) = (200, 100, 50, 255)"
proof -
  from keying_exact_match_and_far [of 10 sample "(10, 20, 30)"] obtain out where
    out: "make_bg_transparent sample (10, 20, 30) 10 = Inr out"
    and ex: "\<And>x y. x < width sample \<and> y < height sample
        \<and> rgb_of (px sample (x, y)) = (10, 20, 30) \<Longrightarrow> alpha (px out (x, y)) = 0"
    and far: "\<And>x y. 10 * 10 * 3 < color_distance_sq (rgb_of (px sample (x, y))) (10, 20, 30)
        \<Longrightarrow> px out (x, y) = px sample (x, y)"
    by auto
  show ?thesis
    using out ex [of 0 0] far [of 0 1] by (simp add: sample_px)
qed

text \<open>
  C9: with a tolerance greater than 0, keying changes at most the alpha channel: width,
  height and every pixel's red, green and blue values are the same before and after.
\<close>

theorem keying_frame:
  assumes "0 < tolerance"
  shows "\<exists>out. make_bg_transparent im bg tolerance = Inr out
           \<and> width out = width im \<and> height out = height im
           \<and> (\<forall>p. rgb_of (px out p) = rgb_of (px im p))"
proof -
  from assms have "tolerance \<noteq> 0" by simp
  note eq = make_bg_transparent_keyed [OF this, of im bg]
  show ?thesis
    by (simp add: eq keyed_rgb)
qed

theorem keying_frame_witness:
  "\<exists>out. make_bg_transparent sample (10, 20, 30) 10 = Inr out
     \<and> width out = 2 \<and> height out = 2
     \<and> rgb_of (px out (0, 0)) = (10, 20, 30) \<and> rgb_of (px out (1, 0)) = (12, 21, 33)"
proof -
  from keying_frame [of 10 sample "(10, 20, 30)"] obtain out where
    out: "make_bg_transparent sample (10, 20, 30) 10 = Inr out"
    and sz: "width out = width sample" "height out = height sample"
    and rgb: "\<And>p. rgb_of (px out p) = rgb_of (px sample p)"
    by auto
  show ?thesis
    using out sz rgb [of "(0, 0)"] rgb [of "(1, 0)"] by (simp add: sample_px)
qed

text \<open>
  With tolerance 0 the threshold is 0: the loop raises at the first opaque or translucent
  pixel that equals the background, and returns the converted image unchanged when there
  is none.
\<close>

lemma for_each_guard:
  assumes "\<And>i. i \<in> set ixs \<Longrightarrow> body i s = (if bad i then Inl e else Inr s)"
  shows "for_each body ixs s = (if \<exists>i\<in>set ixs. bad i then Inl e else Inr s)"
  using assms by (induction ixs) auto

lemma color_distance_sq_zero: "color_distance_sq c bg = 0 \<longleftrightarrow> c = bg"
proof (cases c; cases bg)
  fix a0 a1 a2 b0 b1 b2 :: int
  assume c: "c = (a0, a1, a2)" and b: "bg = (b0, b1, b2)"
  have "(a0 - b0)\<^sup>2 + (a1 - b1)\<^sup>2 + (a2 - b2)\<^sup>2 = 0
      \<longleftrightarrow> (a0 - b0)\<^sup>2 = 0 \<and> (a1 - b1)\<^sup>2 = 0 \<and> (a2 - b2)\<^sup>2 = 0"
    using add_nonneg_eq_0_iff [of "(a0 - b0)\<^sup>2 + (a1 - b1)\<^sup>2" "(a2 - b2)\<^sup>2"]
      add_nonneg_eq_0_iff [of "(a0 - b0)\<^sup>2" "(a1 - b1)\<^sup>2"]
    by auto
  then show ?thesis by (simp add: c b)
qed

lemma key_pixel_zero:
  "key_pixel bg 0 xy store =
     (if alpha (store xy) \<noteq> 0 \<and> rgb_of (store xy) = bg then Inl ZeroDivisionError
      else Inr store)"
proof -
  obtain r g b a where p: "store xy = (r, g, b, a)" by (cases "store xy") auto
  define d where "d = color_distance_sq (uint r, uint g, uint b) bg"
  have d: "d \<le> 0 \<longleftrightarrow> (uint r, uint g, uint b) = bg"
    using color_distance_sq_nonneg [of "(uint r, uint g, uint b)" bg]
      color_distance_sq_zero [of "(uint r, uint g, uint b)" bg] by (auto simp: d_def)
  have "key_pixel bg 0 xy store =
      (if uint a = 0 then Inr store
       else if d \<le> 0 then Inl ZeroDivisionError else Inr store)"
    by (simp add: key_pixel_def p Let_def d_def py_truediv_def)
  then show ?thesis
    by (simp only: d) (simp add: p uint_0_iff)
qed

lemma make_bg_transparent_zero_tolerance:
  "make_bg_transparent im bg 0 =
     (if \<exists>x<width im. \<exists>y<height im. alpha (px im (x, y)) \<noteq> 0 \<and> rgb_of (px im (x, y)) = bg
      then Inl ZeroDivisionError else Inr (convert_RGBA im))"
proof -
  have inner: "for_each (\<lambda>x. key_pixel bg 0 (x, y)) [0..<width im] (px im)
      = (if \<exists>x\<in>set [0..<width im]. alpha (px im (x, y)) \<noteq> 0 \<and> rgb_of (px im (x, y)) = bg
         then Inl ZeroDivisionError else Inr (px im))" for y
    by (rule for_each_guard) (simp add: key_pixel_zero)
  have outer: "for_each (\<lambda>y. for_each (\<lambda>x. key_pixel bg 0 (x, y)) [0..<width im])
        [0..<height im] (px im)
      = (if \<exists>y\<in>set [0..<height im]. \<exists>x\<in>set [0..<width im].
              alpha (px im (x, y)) \<noteq> 0 \<and> rgb_of (px im (x, y)) = bg
         then Inl ZeroDivisionError else Inr (px im))"
    by (rule for_each_guard) (simp add: inner)
  have ex: "(\<exists>y\<in>set [0..<height im]. \<exists>x\<in>set [0..<width im]. P x y)
      = (\<exists>x<width im. \<exists>y<height im. P x y)" for P
    by (simp add: Bex_def) blast
  show ?thesis
    by (simp add: make_bg_transparent_def convert_RGBA_def Let_def outer ex del: set_upt)
qed

text \<open>
  C2: with tolerance 0 the claim wants a pixel at distance 0 keyed to full transparency
  with no division by zero. On a one-pixel opaque white image with a white background the
  source divides \<open>0 / 0\<close> and raises ZeroDivisionError.
\<close>

theorem zero_tolerance_raises:
  "make_bg_transparent white_dot (255, 255, 255) 0 = Inl ZeroDivisionError"
  by (simp add: make_bg_transparent_def white_dot_def convert_RGBA_def key_pixel_def
      py_truediv_def)

section \<open>Properties of the resize-and-pad transformer\<close>

lemma quotient_bounds:
  assumes "0 \<le> t" and "t \<le> 370" and "1 \<le> w"
  shows "0 \<le> fl (of_int t / of_int w)"
    and "fl (of_int t / of_int w) \<le> 740 / of_int w"
    and "py_truediv t w = Inr (fl (of_int t / of_int w))"
proof -
  define q :: rat where "q = of_int t / of_int w"
  have w0: "(0::rat) < of_int w" using assms(3) by simp
  have t370: "(of_int t :: rat) \<le> 370"
  proof -
    have "(of_int t :: rat) \<le> of_int 370" using assms(2) by (simp only: of_int_le_iff)
    then show ?thesis by simp
  qed
  have q0: "0 \<le> q" using assms(1) w0 by (simp add: q_def)
  have "of_int t \<le> (of_int t :: rat) * of_int w"
    using assms(1,3) by (simp add: mult_le_cancel_left1)
  then have "q \<le> of_int t" using w0 by (simp add: q_def pos_divide_le_eq)
  then have q370: "q \<le> of_int 370" using t370 by simp
  show a: "0 \<le> fl (of_int t / of_int w)" using q0 unfolding q_def by (rule fl_nonneg)
  have "fl q \<le> 2 * q" using q0 by (rule fl_le_double)
  also have "\<dots> \<le> 740 / of_int w"
    using t370 w0 by (simp add: q_def divide_right_mono)
  finally show "fl (of_int t / of_int w) \<le> 740 / of_int w" by (simp add: q_def)
  have "fl q \<le> of_int 370"
    using q370 by (rule fl_le_int) (use q370 in simp_all)
  then have "\<bar>fl q\<bar> < 2 ^ 1024" using a by (simp add: q_def)
  then have "\<not> is_inf (fl q)" by (rule not_is_inf)
  then show "py_truediv t w = Inr (fl (of_int t / of_int w))"
    using assms(3) by (simp add: py_truediv_def Let_def q_def)
qed

lemma product_round:
  assumes "1 \<le> w" and "0 \<le> s" and "s \<le> 740 / of_int w"
  shows "py_round (float_mul (float_of_int w) s)
           = Inr (round_half_even (float_mul (float_of_int w) s))"
proof -
  have w0: "(0::rat) < of_int w" using assms(1) by simp
  have f0: "0 \<le> float_of_int w" unfolding float_of_int_def using w0 by (intro fl_nonneg) simp
  have f1: "float_of_int w \<le> 2 * of_int w"
    unfolding float_of_int_def using w0 by (intro fl_le_double) simp
  have "float_of_int w * s \<le> (2 * of_int w) * (740 / of_int w)"
    using f0 f1 assms(2,3) by (intro mult_mono) simp_all
  also have "\<dots> = of_int 1480" using w0 by simp
  finally have p1: "float_of_int w * s \<le> of_int 1480" .
  have p0: "0 \<le> float_of_int w * s" using f0 assms(2) by simp
  have "fl (float_of_int w * s) \<le> of_int 1480"
    using p1 by (rule fl_le_int) (use p1 in simp_all)
  moreover have "0 \<le> fl (float_of_int w * s)" using p0 by (rule fl_nonneg)
  ultimately have "\<bar>fl (float_of_int w * s)\<bar> < 2 ^ 1024" by simp
  then have "\<not> is_inf (fl (float_of_int w * s))" by (rule not_is_inf)
  then show ?thesis by (simp add: py_round_def float_mul_def)
qed

lemma resize_size:
  "width (resize filt im sz) = fst sz" "height (resize filt im sz) = snd sz"
  "mode (resize filt im sz) = mode im"
  by (auto simp: resize_def)

lemma resize_and_pad_370_320:
  assumes "0 < width im" and "0 < height im"
  shows "resize_and_pad filt im 370 320 =
    paste (blank 370 320)
      (resize filt (convert_RGBA im)
         (nat (fst (fit_size 370 320 (int (width im)) (int (height im)))),
          nat (snd (fit_size 370 320 (int (width im)) (int (height im))))))
      (center_offset 370 320 (fit_size 370 320 (int (width im)) (int (height im))))
      (resize filt (convert_RGBA im)
         (nat (fst (fit_size 370 320 (int (width im)) (int (height im)))),
          nat (snd (fit_size 370 320 (int (width im)) (int (height im))))))"
proof -
  define w where "w = int (width im)"
  define h where "h = int (height im)"
  have w1: "1 \<le> w" and h1: "1 \<le> h" using assms by (simp_all add: w_def h_def)
  note qw = quotient_bounds [of 370 w, OF _ _ w1, simplified]
  note qh = quotient_bounds [of 320 h, OF _ _ h1, simplified]
  define s where "s = fit_scale 370 320 w h"
  have s_eq: "py_min (fl (370 / of_int w)) (fl (320 / of_int h)) = s"
    by (simp add: s_def fit_scale_def)
  have s0: "0 \<le> s" using qw(1) qh(1) by (simp add: s_eq [symmetric] py_min_def)
  have sw: "s \<le> 740 / of_int w" using qw(2) by (simp add: s_eq [symmetric] py_min_def)
  have sh: "s \<le> 740 / of_int h" using qh(2) by (simp add: s_eq [symmetric] py_min_def)
  note rw = product_round [OF w1 s0 sw]
  note rh = product_round [OF h1 s0 sh]
  have wh: "w \<noteq> 0" "h \<noteq> 0" using w1 h1 by simp_all
  show ?thesis
    unfolding w_def [symmetric] h_def [symmetric]
    using wh assms
    by (simp add: resize_and_pad_def convert_RGBA_def Let_def w_def [symmetric]
        h_def [symmetric] qw(3) qh(3) s_eq rw rh Image_new_def blank_def fit_size_def
        s_def [symmetric] center_offset_def)
qed

lemma fit_size_100_200: "fit_size 370 320 100 200 = (160, 320)"
  by code_simp

lemma fit_size_same: "fit_size 370 320 370 320 = (370, 320)"
  by code_simp

lemma div255_exact:
  fixes n :: nat
  assumes "n < 256"
  shows "((n * 255 + 128) div 256 + (n * 255 + 128)) div 256 = n"
proof (cases "n \<le> 128")
  case True
  have "(n * 255 + 128) div 256 = n"
    using True by (intro div_nat_eqI) simp_all
  moreover have "(n + (n * 255 + 128)) div 256 = n"
    by (intro div_nat_eqI) simp_all
  ultimately show ?thesis by simp
next
  case False
  then obtain k where k: "n = Suc k" by (cases n) auto
  have "(n * 255 + 128) div 256 = k"
    using False assms by (intro div_nat_eqI) (simp_all add: k)
  moreover have "(k + (n * 255 + 128)) div 256 = n"
    by (intro div_nat_eqI) (simp_all add: k)
  ultimately show ?thesis by simp
qed

lemma unat8_less: "unat (w :: 8 word) < 256"
  using unsigned_less [of w, where ?'a = nat] by simp

lemma blend8_full: "blend8 255 out inp = inp"
  using div255_exact [OF unat8_less [of inp]] by (simp add: blend8_def Let_def)

lemma blend8_none: "blend8 0 out inp = out"
  using div255_exact [OF unat8_less [of out]] by (simp add: blend8_def Let_def)

lemma over_transparent_opaque: "alpha p = 255 \<Longrightarrow> over_transparent p = p"
  by (cases p) (simp add: over_transparent_def blend8_full)

lemma over_transparent_clear: "alpha p = 0 \<Longrightarrow> over_transparent p = (0, 0, 0, 0)"
  by (cases p) (simp add: over_transparent_def blend8_none)

lemma paste_px:
  "paste dst src xy src = Inr out \<Longrightarrow>
   px out (X, Y) =
     (if X < width dst \<and> Y < height dst \<and> fst xy \<le> int X \<and> int X < fst xy + int (width src)
          \<and> snd xy \<le> int Y \<and> int Y < snd xy + int (height src)
      then blend_pixel (alpha (px src (nat (int X - fst xy), nat (int Y - snd xy))))
             (px dst (X, Y)) (px src (nat (int X - fst xy), nat (int Y - snd xy)))
      else px dst (X, Y))"
  by (auto simp: paste_def Let_def)

lemma paste_frame:
  "paste dst src xy src = Inr out \<Longrightarrow>
   width out = width dst \<and> height out = height dst \<and> mode out = mode dst"
  by (auto simp: paste_def)

lemma paste_self: "\<exists>out. paste dst src xy src = Inr out"
  by (simp add: paste_def)

text \<open>
  C1: for every input image with positive width and height, \<^verbatim>\<open>resize_and_pad\<close> with the
  370 by 320 target returns an image exactly 370 wide and 320 tall in mode RGBA; when the
  source width or height is 0 it fails with the invalid-dimensions ValueError.
\<close>

theorem resize_and_pad_size:
  "(0 < width im \<and> 0 < height im \<longrightarrow>
      (\<exists>out. resize_and_pad filt im 370 320 = Inr out
         \<and> width out = 370 \<and> height out = 320 \<and> mode out = ''RGBA''))
   \<and> (width im = 0 \<or> height im = 0 \<longrightarrow>
      resize_and_pad filt im 370 320 = Inl (ValueError ''Image has invalid dimensions''))"
proof (intro conjI impI)
  assume a: "0 < width im \<and> 0 < height im"
  then have eq: "resize_and_pad filt im 370 320 =
    paste (blank 370 320)
      (resize filt (convert_RGBA im)
         (nat (fst (fit_size 370 320 (int (width im)) (int (height im)))),
          nat (snd (fit_size 370 320 (int (width im)) (int (height im))))))
      (center_offset 370 320 (fit_size 370 320 (int (width im)) (int (height im))))
      (resize filt (convert_RGBA im)
         (nat (fst (fit_size 370 320 (int (width im)) (int (height im)))),
          nat (snd (fit_size 370 320 (int (width im)) (int (height im))))))"
    by (intro resize_and_pad_370_320) simp_all
  obtain out where out: "resize_and_pad filt im 370 320 = Inr out"
    using paste_self unfolding eq by blast
  from out [unfolded eq] have "width out = 370 \<and> height out = 320 \<and> mode out = ''RGBA''"
    by (auto dest!: paste_frame simp: blank_def)
  with out show "\<exists>out. resize_and_pad filt im 370 320 = Inr out
         \<and> width out = 370 \<and> height out = 320 \<and> mode out = ''RGBA''" by blast
next
  assume "width im = 0 \<or> height im = 0"
  then show "resize_and_pad filt im 370 320 = Inl (ValueError ''Image has invalid dimensions'')"
    by (auto simp: resize_and_pad_def convert_RGBA_def Let_def)
qed

lemma fit_size_ge_1: "1 \<le> fst (fit_size tw th w h) \<and> 1 \<le> snd (fit_size tw th w h)"
  by (simp add: fit_size_def)

lemma resize_and_pad_fitted:
  assumes "0 < width im" and "0 < height im"
  shows "resize_and_pad filt im 370 320 =
    paste (blank 370 320) (fitted filt im)
      (center_offset 370 320 (fit_size 370 320 (int (width im)) (int (height im))))
      (fitted filt im)"
  using resize_and_pad_370_320 [OF assms, of filt] by (simp add: fitted_def Let_def)

theorem resize_and_pad_size_witness:
  "(\<exists>out. resize_and_pad nearest portrait 370 320 = Inr out
      \<and> width out = 370 \<and> height out = 320 \<and> mode out = ''RGBA'')
   \<and> width portrait = 100 \<and> height portrait = 200 \<and> mode portrait = ''RGB''
   \<and> resize_and_pad nearest empty_strip 370 320 = Inl (ValueError ''Image has invalid dimensions'')
   \<and> width empty_strip = 0"
  using resize_and_pad_size [of portrait nearest] resize_and_pad_size [of empty_strip nearest]
  by (simp add: portrait_def empty_strip_def)

text \<open>
  C5: for an image of positive size the content is resized to \<open>fit_size\<close>, that is to
  \<^verbatim>\<open>round(w * scale)\<close> by \<^verbatim>\<open>round(h * scale)\<close> with
  \<^verbatim>\<open>scale = min(370 / w, 320 / h)\<close> and a minimum of 1 each, and every pixel of the
  returned canvas is the content pasted at the offset
  \<^verbatim>\<open>((370 - new_w) // 2, (320 - new_h) // 2)\<close>, transparent elsewhere. A 100 by 200 input
  gives a 160 by 320 content at horizontal offset 105.
\<close>

theorem resize_and_pad_layout:
  "(0 < width im \<and> 0 < height im \<longrightarrow>
      (\<exists>out. resize_and_pad filt im 370 320 = Inr out
         \<and> int (width (fitted filt im)) = fst (fit_size 370 320 (int (width im)) (int (height im)))
         \<and> int (height (fitted filt im)) = snd (fit_size 370 320 (int (width im)) (int (height im)))
         \<and> (\<forall>X Y. X < 370 \<and> Y < 320 \<longrightarrow>
               px out (X, Y) = placed (fitted filt im)
                 (center_offset 370 320 (fit_size 370 320 (int (width im)) (int (height im))))
                 (X, Y))))
   \<and> fit_size 370 320 100 200 = (160, 320)
   \<and> center_offset 370 320 (160, 320) = (105, 0)"
proof (intro conjI impI)
  assume a: "0 < width im \<and> 0 < height im"
  define off where "off = center_offset 370 320 (fit_size 370 320 (int (width im)) (int (height im)))"
  have eq: "resize_and_pad filt im 370 320 = paste (blank 370 320) (fitted filt im) off (fitted filt im)"
    using a by (simp add: resize_and_pad_fitted off_def)
  obtain out where out: "paste (blank 370 320) (fitted filt im) off (fitted filt im) = Inr out"
    using paste_self by blast
  have sz: "int (width (fitted filt im)) = fst (fit_size 370 320 (int (width im)) (int (height im)))"
    "int (height (fitted filt im)) = snd (fit_size 370 320 (int (width im)) (int (height im)))"
    using fit_size_ge_1 [of 370 320 "int (width im)" "int (height im)"]
    by (simp_all add: fitted_def Let_def resize_size)
  have "px out (X, Y) = placed (fitted filt im) off (X, Y)" if "X < 370 \<and> Y < 320" for X Y
    using that by (simp add: paste_px [OF out] placed_def blank_def over_transparent_def Let_def)
  with out sz show "\<exists>out. resize_and_pad filt im 370 320 = Inr out
         \<and> int (width (fitted filt im)) = fst (fit_size 370 320 (int (width im)) (int (height im)))
         \<and> int (height (fitted filt im)) = snd (fit_size 370 320 (int (width im)) (int (height im)))
         \<and> (\<forall>X Y. X < 370 \<and> Y < 320 \<longrightarrow>
               px out (X, Y) = placed (fitted filt im)
                 (center_offset 370 320 (fit_size 370 320 (int (width im)) (int (height im))))
                 (X, Y))"
    unfolding eq off_def [symmetric] by blast
next
  show "fit_size 370 320 100 200 = (160, 320)" by (rule fit_size_100_200)
  show "center_offset 370 320 (160, 320) = (105, 0)" by (simp add: center_offset_def)
qed

lemma portrait_size:
  "fit_size 370 320 (int (width portrait)) (int (height portrait)) = (160, 320)"
  by (simp add: portrait_def fit_size_100_200)

lemma portrait_pixels:
  "placed (fitted nearest portrait) (105, 0) (104, 0) = (0, 0, 0, 0)"
  "placed (fitted nearest portrait) (105, 0) (105, 0) = (200, 100, 50, 255)"
  "placed (fitted nearest portrait) (105, 0) (264, 319) = (200, 100, 50, 255)"
  "placed (fitted nearest portrait) (105, 0) (265, 319) = (0, 0, 0, 0)"
  by (simp_all add: placed_def fitted_def portrait_size resize_def convert_RGBA_def)
    (simp_all add: portrait_def nearest_def over_transparent_opaque)

theorem resize_and_pad_layout_witness:
  "\<exists>out. resize_and_pad nearest portrait 370 320 = Inr out
     \<and> width (fitted nearest portrait) = 160 \<and> height (fitted nearest portrait) = 320
     \<and> px out (104, 0) = (0, 0, 0, 0) \<and> px out (105, 0) = (200, 100, 50, 255)
     \<and> px out (264, 319) = (200, 100, 50, 255) \<and> px out (265, 319) = (0, 0, 0, 0)"
proof -
  have pos: "0 < width portrait \<and> 0 < height portrait" by (simp add: portrait_def)
  from resize_and_pad_layout [of portrait nearest] pos obtain out where
    out: "resize_and_pad nearest portrait 370 320 = Inr out"
    and w: "int (width (fitted nearest portrait))
        = fst (fit_size 370 320 (int (width portrait)) (int (height portrait)))"
    and h: "int (height (fitted nearest portrait))
        = snd (fit_size 370 320 (int (width portrait)) (int (height portrait)))"
    and p: "\<And>X Y. X < 370 \<and> Y < 320 \<Longrightarrow> px out (X, Y) = placed (fitted nearest portrait)
        (center_offset 370 320 (fit_size 370 320 (int (width portrait)) (int (height portrait))))
        (X, Y)"
    by blast
  show ?thesis
    using out w h p [of 104 0] p [of 105 0] p [of 264 319] p [of 265 319]
    by (simp add: portrait_pixels portrait_size center_offset_def)
qed

text \<open>
  C6, as amended: for every RGBA image that is already 370 by 320, \<^verbatim>\<open>resize_and_pad\<close>
  returns a 370 by 320 RGBA image in which every pixel is the source pixel blended onto
  the transparent canvas with its own alpha as the mask; a source pixel of alpha 255 is
  returned unchanged.
\<close>

theorem resize_and_pad_same_size:
  assumes "mode im = ''RGBA''" and "width im = 370" and "height im = 320"
  shows "\<exists>out. resize_and_pad filt im 370 320 = Inr out
           \<and> mode out = ''RGBA'' \<and> width out = 370 \<and> height out = 320
           \<and> (\<forall>X Y. X < 370 \<and> Y < 320 \<longrightarrow>
                 px out (X, Y) = over_transparent (px im (X, Y))
                 \<and> (alpha (px im (X, Y)) = 255 \<longrightarrow> px out (X, Y) = px im (X, Y)))"
proof -
  have c: "convert_RGBA im = im" using assms(1) by (simp add: convert_RGBA_def)
  have f: "fitted filt im = im"
    using assms(2,3) by (simp add: fitted_def fit_size_same c resize_def)
  have eq: "resize_and_pad filt im 370 320 = paste (blank 370 320) im (0, 0) im"
    using resize_and_pad_fitted [of im filt] assms(2,3)
    by (simp add: f fit_size_same center_offset_def)
  obtain out where out: "paste (blank 370 320) im (0, 0) im = Inr out"
    using paste_self by blast
  have px: "px out (X, Y) = over_transparent (px im (X, Y))" if "X < 370 \<and> Y < 320" for X Y
    using that assms(2,3) by (simp add: paste_px [OF out] blank_def over_transparent_def)
  show ?thesis
    using out px paste_frame [OF out] by (auto simp: eq blank_def over_transparent_opaque)
qed

lemma faded_pixel: "over_transparent (200, 100, 50, 128) = (100, 50, 25, 64)"
  by (simp add: over_transparent_def blend8_def)

lemma half_faded_pixels:
  "over_transparent (px half_faded (0, 0)) = (200, 100, 50, 255)"
  "over_transparent (px half_faded (369, 0)) = (100, 50, 25, 64)"
  by (simp_all add: half_faded_def over_transparent_opaque faded_pixel)

theorem resize_and_pad_same_size_witness:
  "\<exists>out. resize_and_pad nearest half_faded 370 320 = Inr out
           \<and> mode out = ''RGBA'' \<and> width out = 370 \<and> height out = 320
           \<and> px out (0, 0) = (200, 100, 50, 255) \<and> px out (369, 0) = (100, 50, 25, 64)"
proof -
  have h: "mode half_faded = ''RGBA''" "width half_faded = 370" "height half_faded = 320"
    by (simp_all add: half_faded_def)
  from resize_and_pad_same_size [OF h, of nearest] obtain out where
    out: "resize_and_pad nearest half_faded 370 320 = Inr out"
      "mode out = ''RGBA''" "width out = 370" "height out = 320"
    and p: "\<And>X Y. X < 370 \<and> Y < 320 \<Longrightarrow> px out (X, Y) = over_transparent (px half_faded (X, Y))"
    by blast
  show ?thesis
    using out p [of 0 0] p [of 369 0] by (simp add: half_faded_pixels)
qed

text \<open>
  C6 as stated fails: in a 370 by 320 RGBA image, a pixel \<open>(200, 100, 50, 128)\<close> comes
  back as \<open>(100, 50, 25, 64)\<close>.
\<close>

theorem partial_alpha_not_preserved:
  "result_pixel (resize_and_pad nearest half_faded 370 320) (369, 0) = Inr (100, 50, 25, 64)
   \<and> px half_faded (369, 0) = (200, 100, 50, 128)
   \<and> mode half_faded = ''RGBA'' \<and> width half_faded = 370 \<and> height half_faded = 320"
proof -
  have "fitted nearest half_faded = half_faded"
    by (simp add: fitted_def half_faded_def fit_size_same convert_RGBA_def resize_def)
  then have "resize_and_pad nearest half_faded 370 320
      = paste (blank 370 320) half_faded (0, 0) half_faded"
    using resize_and_pad_fitted [of half_faded nearest]
    by (simp add: half_faded_def fit_size_same center_offset_def)
  then have "result_pixel (resize_and_pad nearest half_faded 370 320) (369, 0)
      = Inr (over_transparent (200, 100, 50, 128))"
    by (simp add: result_pixel_def paste_def blank_def half_faded_def over_transparent_def)
  then show ?thesis by (simp add: faded_pixel half_faded_def)
qed

section \<open>Properties of the hex colour parser\<close>

lemma hex_digit_facts:
  assumes "is_hex_digit c"
  shows "\<not> c_isspace c" "\<not> py_isspace c" "space_to_ascii c = c"
    "c \<noteq> CHR ''_''" "c \<noteq> CHR ''+''" "c \<noteq> CHR ''-''" "c \<noteq> CHR ''x''" "c \<noteq> CHR ''X''"
    "c \<noteq> CHR ''#''"
  using assms
  by (auto simp: is_hex_digit_def digit_value_def c_isspace_def py_isspace_def
      space_to_ascii_def Let_def split: if_splits)

lemma py_int16_pair:
  assumes "is_hex_digit a" and "is_hex_digit b"
  shows "py_int16 [a, b] = Inr (pair_value a b)"
proof -
  obtain da db where d: "digit_value a = Some da" "digit_value b = Some db"
    using assms by (auto simp: is_hex_digit_def)
  note fa = hex_digit_facts [OF assms(1)] and fb = hex_digit_facts [OF assms(2)]
  show ?thesis
    by (simp add: py_int16_def Let_def fa fb d pair_value_def)
qed


lemma strip_padded:
  assumes "s \<noteq> []" and "\<not> py_isspace (hd s)" and "\<not> py_isspace (last s)"
    and "list_all py_isspace u" and "list_all py_isspace v"
  shows "strip (u @ s @ v) = s"
proof -
  obtain c s' where s: "s = c # s'" using assms(1) by (cases s) auto
  have "dropWhile py_isspace (u @ s @ v) = dropWhile py_isspace (s @ v)"
    using assms(4) by (intro dropWhile_append2) (simp add: list_all_iff)
  also have "\<dots> = s @ v" using assms(2) by (simp add: s)
  finally have d1: "dropWhile py_isspace (u @ s @ v) = s @ v" .
  have "dropWhile py_isspace (rev v @ rev s) = dropWhile py_isspace (rev s)"
    using assms(5) by (intro dropWhile_append2) (simp add: list_all_iff)
  also have "\<dots> = rev s"
    using assms(1,3) by (cases "rev s") (auto simp: last_rev [symmetric] simp del: last_rev)
  finally show ?thesis by (simp add: strip_def d1)
qed

lemma valid_color_ends:
  assumes "valid_color s"
  shows "s \<noteq> []" and "\<not> py_isspace (hd s)" and "\<not> py_isspace (last s)"
proof -
  define t where "t = color_body s"
  have len: "length t = 3 \<or> length t = 6" and hex: "list_all is_hex_digit t"
    using assms by (simp_all add: valid_color_def t_def)
  have t0: "t \<noteq> []" using len by auto
  have sharp: "\<not> py_isspace (CHR ''#'')" by (simp add: py_isspace_def)
  show s0: "s \<noteq> []" using t0 by (auto simp: t_def color_body_def)
  have ht: "is_hex_digit (hd t)" "is_hex_digit (last t)"
    using hex t0 by (simp_all add: list_all_iff)
  show "\<not> py_isspace (hd s)"
  proof (cases "take 1 s = ''#''")
    case True
    then have "hd s = CHR ''#''" using s0 by (cases s) auto
    then show ?thesis by (simp add: sharp)
  next
    case False
    then have "t = s" by (simp add: t_def color_body_def)
    then show ?thesis using ht(1) hex_digit_facts(2) by auto
  qed
  have "last t = last s"
    using t0 by (auto simp: t_def color_body_def last_drop split: if_splits)
  then show "\<not> py_isspace (last s)" using ht(2) hex_digit_facts(2) by auto
qed

lemma strip_valid:
  assumes "valid_color s" and "list_all py_isspace u" and "list_all py_isspace v"
  shows "strip (u @ s @ v) = s"
  using strip_padded [OF valid_color_ends [OF assms(1)] assms(2,3)] .

lemma expand_valid:
  assumes "length t = 3 \<or> length t = 6" and "list_all is_hex_digit t"
  shows "length (expand t) = 6" and "list_all is_hex_digit (expand t)"
proof -
  show "list_all is_hex_digit (expand t)"
    using assms(2) by (auto simp: expand_def list_all_iff)
  show "length (expand t) = 6"
  proof (cases "length t = 3")
    case True
    then obtain a b c where "t = [a, b, c]"
      by (auto simp: eval_nat_numeral length_Suc_conv)
    then show ?thesis by (simp add: expand_def)
  next
    case False
    then show ?thesis using assms(1) by (simp add: expand_def)
  qed
qed

lemma parse_six:
  assumes "length t = 6" and "list_all is_hex_digit t"
  shows "(case py_int16 (take 2 t) of Inl e \<Rightarrow> Inl e | Inr r \<Rightarrow>
           (case py_int16 (take 2 (drop 2 t)) of Inl e \<Rightarrow> Inl e | Inr g \<Rightarrow>
           (case py_int16 (take 2 (drop 4 t)) of Inl e \<Rightarrow> Inl e | Inr b \<Rightarrow>
            Inr (r, g, b)))) = Inr (hex_rgb t)"
proof -
  obtain c0 c1 c2 c3 c4 c5 where t: "t = [c0, c1, c2, c3, c4, c5]"
    using assms(1) by (auto simp: eval_nat_numeral length_Suc_conv)
  have h: "is_hex_digit c0" "is_hex_digit c1" "is_hex_digit c2" "is_hex_digit c3"
    "is_hex_digit c4" "is_hex_digit c5"
    using assms(2) by (simp_all add: t)
  show ?thesis
    by (simp add: t py_int16_pair h hex_rgb_def)
qed

lemma parse_hex_color_alt:
  "parse_hex_color s0 =
     (if length (expand (color_body (strip s0))) \<noteq> 6
      then Inl (ValueError ''Hex color must be 3 or 6 hex digits, e.g. #fff or #ffffff'')
      else (case py_int16 (take 2 (expand (color_body (strip s0)))) of
              Inl e \<Rightarrow> Inl e | Inr r \<Rightarrow>
           (case py_int16 (take 2 (drop 2 (expand (color_body (strip s0))))) of
              Inl e \<Rightarrow> Inl e | Inr g \<Rightarrow>
           (case py_int16 (take 2 (drop 4 (expand (color_body (strip s0))))) of
              Inl e \<Rightarrow> Inl e | Inr b \<Rightarrow>
            Inr (r, g, b)))))"
  unfolding parse_hex_color_def color_body_def expand_def Let_def by (rule refl)

lemma parse_valid:
  assumes "valid_color s"
  shows "parse_hex_color s = Inr (hex_rgb (expand (color_body s)))"
proof -
  have st: "strip s = s" using strip_valid [OF assms, of "[]" "[]"] by simp
  define t where "t = color_body s"
  have len: "length t = 3 \<or> length t = 6" and hex: "list_all is_hex_digit t"
    using assms by (simp_all add: valid_color_def t_def)
  note ex = expand_valid [OF len hex]
  show ?thesis
    using ex(1) parse_six [OF ex]
    by (simp only: parse_hex_color_alt st t_def [symmetric] simp_thms if_False)
qed


lemma parse_hex_color_bad_length:
  assumes "length (color_body (strip s)) \<noteq> 3" and "length (color_body (strip s)) \<noteq> 6"
  shows "parse_hex_color s
    = Inl (ValueError ''Hex color must be 3 or 6 hex digits, e.g. #fff or #ffffff'')"
  using assms by (simp add: parse_hex_color_alt expand_def)

lemma digit_value_swapcase: "digit_value (swapcase c) = digit_value c"
  by (auto simp: digit_value_def swapcase_def Let_def)

lemma is_hex_digit_swapcase: "is_hex_digit (swapcase c) = is_hex_digit c"
  by (simp add: is_hex_digit_def digit_value_swapcase)

lemma swapcase_sharp: "swapcase c = CHR ''#'' \<longleftrightarrow> c = CHR ''#''"
proof
  assume "c = CHR ''#''"
  then show "swapcase c = CHR ''#''" by (simp add: swapcase_def)
next
  assume a: "swapcase c = CHR ''#''"
  then have n: "(of_char (swapcase c) :: nat) = 35" by simp
  show "c = CHR ''#''"
  proof (cases "(97 \<le> (of_char c :: nat) \<and> (of_char c :: nat) \<le> 122)
      \<or> (65 \<le> (of_char c :: nat) \<and> (of_char c :: nat) \<le> 90)")
    case True
    then have "(of_char (swapcase c) :: nat) \<noteq> 35"
      by (auto simp: swapcase_def Let_def)
    with n show ?thesis by simp
  next
    case False
    then have "swapcase c = c" by (auto simp: swapcase_def Let_def)
    with a show ?thesis by simp
  qed
qed

lemma color_body_swapcase: "color_body (map swapcase s) = map swapcase (color_body s)"
  by (cases s) (auto simp: color_body_def swapcase_sharp)

lemma expand_map: "expand (map f t) = map f (expand t)"
  by (simp add: expand_def map_concat comp_def)

lemma valid_color_swapcase: "valid_color (map swapcase s) = valid_color s"
  by (simp add: valid_color_def color_body_swapcase list_all_iff is_hex_digit_swapcase)

lemma hex_rgb_swapcase: "length t = 6 \<Longrightarrow> hex_rgb (map swapcase t) = hex_rgb t"
  by (simp add: hex_rgb_def pair_value_def digit_value_swapcase)

text \<open>
  C10: for every valid colour string \<open>s\<close> and whitespace strings \<open>u\<close> and \<open>v\<close>,
  parsing \<open>u @ s @ v\<close> and parsing the case-swapped \<open>s\<close> both return the RGB triple
  that parsing \<open>s\<close> returns.
\<close>

theorem parse_hex_color_whitespace_and_case:
  assumes "valid_color s" and "list_all py_isspace u" and "list_all py_isspace v"
  shows "parse_hex_color (u @ s @ v) = parse_hex_color s
     \<and> parse_hex_color (map swapcase s) = parse_hex_color s
     \<and> parse_hex_color s = Inr (hex_rgb (expand (color_body s)))"
proof -
  have st: "strip (u @ s @ v) = s" using assms by (rule strip_valid)
  have st0: "strip s = s" using strip_valid [OF assms(1), of "[]" "[]"] by simp
  have a: "parse_hex_color (u @ s @ v) = parse_hex_color s"
    by (simp only: parse_hex_color_alt st st0)
  have len: "length (expand (color_body s)) = 6"
    using assms(1) by (intro expand_valid) (simp_all add: valid_color_def)
  have "parse_hex_color (map swapcase s)
      = Inr (hex_rgb (expand (color_body (map swapcase s))))"
    using assms(1) by (intro parse_valid) (simp add: valid_color_swapcase)
  also have "\<dots> = Inr (hex_rgb (expand (color_body s)))"
    using len by (simp add: color_body_swapcase expand_map hex_rgb_swapcase)
  finally have b: "parse_hex_color (map swapcase s) = Inr (hex_rgb (expand (color_body s)))" .
  show ?thesis using a b parse_valid [OF assms(1)] by simp
qed

lemma f0a_facts:
  "valid_color ''#f0a''" "list_all py_isspace [CHR '' '', CHR 0x09]"
  "list_all py_isspace [CHR 0x0A]" "hex_rgb (expand (color_body ''#f0a'')) = (255, 0, 170)"
  "map swapcase ''#f0a'' = ''#F0A''"
  by code_simp+

theorem parse_hex_color_whitespace_and_case_witness:
  "parse_hex_color ([CHR '' '', CHR 0x09] @ ''#f0a'' @ [CHR 0x0A]) = Inr (255, 0, 170)
   \<and> parse_hex_color ''#F0A'' = Inr (255, 0, 170)
   \<and> parse_hex_color ''#f0a'' = Inr (255, 0, 170)"
  using parse_hex_color_whitespace_and_case [OF f0a_facts(1,2,3)]
  by (simp only: f0a_facts(4,5))

text \<open>
  C7: the claim wants InvalidFormat for every string that contains a character that is not
  a hexadecimal digit. The source leaves the check to \<^verbatim>\<open>int(_, 16)\<close>, which accepts a
  sign or a blank in front of a digit: the strings below are parsed, the second to
  negative channels.
\<close>

theorem parse_hex_color_accepts_signs:
  "parse_hex_color ''+f+f+f'' = Inr (15, 15, 15)
   \<and> parse_hex_color ''-1-1-1'' = Inr (- 1, - 1, - 1)
   \<and> parse_hex_color ''# 1 2 3'' = Inr (1, 2, 3)"
  by code_simp

section \<open>Properties of the background detector\<close>

lemma map_of_counter_add:
  "map_of (counter_add c m) = (map_of m)(c \<mapsto> (case map_of m c of None \<Rightarrow> 1 | Some n \<Rightarrow> n + 1))"
  by (induction m) (auto simp: fun_eq_iff)

lemma keys_counter_add: "fst ` set (counter_add c m) = insert c (fst ` set m)"
  by (simp add: dom_map_of_conv_image_fst [symmetric] map_of_counter_add)

lemma distinct_counter_add:
  "distinct (map fst m) \<Longrightarrow> distinct (map fst (counter_add c m))"
  by (induction m) (auto simp: keys_counter_add)

lemma foldl_counter:
  "distinct (map fst m) \<Longrightarrow>
   distinct (map fst (foldl (\<lambda>m c. counter_add c m) m xs))
   \<and> (\<forall>k. map_of (foldl (\<lambda>m c. counter_add c m) m xs) k =
         (case map_of m k of
            None \<Rightarrow> if count_list xs k = 0 then None else Some (count_list xs k)
          | Some n \<Rightarrow> Some (n + count_list xs k)))"
proof (induction xs arbitrary: m)
  case Nil
  then show ?case by (auto split: option.splits)
next
  case (Cons x xs)
  have d: "distinct (map fst (counter_add x m))" using Cons.prems by (rule distinct_counter_add)
  show ?case
    using Cons.IH [OF d] by (auto simp: map_of_counter_add split: option.splits)
qed

lemma Counter_entries:
  "distinct (map fst (Counter xs))"
  "(k, n) \<in> set (Counter xs) \<longleftrightarrow> k \<in> set xs \<and> n = count_list xs k"
proof -
  have f: "distinct (map fst (Counter xs))
    \<and> (\<forall>k. map_of (Counter xs) k = (if count_list xs k = 0 then None else Some (count_list xs k)))"
    using foldl_counter [of "[]" xs] by (simp add: Counter_def)
  then show d: "distinct (map fst (Counter xs))" by simp
  have "(k, n) \<in> set (Counter xs) \<longleftrightarrow> map_of (Counter xs) k = Some n"
    using d by simp
  also have "\<dots> \<longleftrightarrow> k \<in> set xs \<and> n = count_list xs k"
    using f by (auto simp: count_list_0_iff)
  finally show "(k, n) \<in> set (Counter xs) \<longleftrightarrow> k \<in> set xs \<and> n = count_list xs k" .
qed


lemma most_common_props:
  assumes "kvs \<noteq> []"
  shows "most_common kvs \<noteq> []"
    and "set (most_common kvs) = set kvs"
    and "distinct (map fst (most_common kvs)) = distinct (map fst kvs)"
    and "\<forall>kv\<in>set kvs. snd kv \<le> snd (most_common kvs ! 0)"
proof -
  define l where "l = most_common kvs"
  have len: "length l = length kvs" by (simp add: l_def most_common_def)
  then show ne: "most_common kvs \<noteq> []" using assms by (auto simp: l_def)
  show st: "set (most_common kvs) = set kvs" by (simp add: most_common_def)
  show "distinct (map fst (most_common kvs)) = distinct (map fst kvs)"
    by (simp add: distinct_map most_common_def)
  obtain x xs where l: "l = x # xs" using ne by (cases l) (auto simp: l_def)
  have "sorted (map (\<lambda>kv. - int (snd kv)) l)"
    by (simp add: l_def most_common_def)
  then have "\<forall>y\<in>set xs. snd y \<le> snd x" by (auto simp: l)
  then have "\<forall>y\<in>set l. snd y \<le> snd (l ! 0)" by (simp add: l)
  then show "\<forall>kv\<in>set kvs. snd kv \<le> snd (most_common kvs ! 0)"
    using st by (simp add: l_def)
qed

lemma candidates_tied:
  assumes "cs \<noteq> []"
  defines "cnt \<equiv> most_common (Counter cs)"
  defines "cand \<equiv> map fst (filter (\<lambda>cf. snd cf = snd (cnt ! 0)) cnt)"
  shows "cnt \<noteq> []" and "distinct cand" and "set cand = tied cs"
proof -
  obtain c0 where c0: "c0 \<in> set cs" using assms(1) by (cases cs) auto
  then have "(c0, count_list cs c0) \<in> set (Counter cs)" by (simp add: Counter_entries)
  then have ne: "Counter cs \<noteq> []" by auto
  note mc = most_common_props [OF ne, folded cnt_def]
  show "cnt \<noteq> []" by (rule mc(1))
  have "distinct (map fst cnt)" using mc(3) Counter_entries(1) by simp
  then show "distinct cand" unfolding cand_def by (rule distinct_map_filter)
  obtain k m where top: "cnt ! 0 = (k, m)" by (cases "cnt ! 0") auto
  have "cnt ! 0 \<in> set cnt" using mc(1) by simp
  then have km: "k \<in> set cs" "m = count_list cs k"
    using mc(2) by (simp_all add: top Counter_entries)
  have mx: "count_list cs d \<le> m" if "d \<in> set cs" for d
  proof -
    have "(d, count_list cs d) \<in> set (Counter cs)" using that by (simp add: Counter_entries)
    then show ?thesis using mc(4) by (force simp: top)
  qed
  have "set cand = {c. (c, m) \<in> set (Counter cs)}"
    by (force simp: cand_def top mc(2))
  also have "\<dots> = {c \<in> set cs. count_list cs c = m}"
    by (auto simp: Counter_entries)
  also have "\<dots> = tied cs"
  proof (intro set_eqI iffI)
    fix c assume "c \<in> {c \<in> set cs. count_list cs c = m}"
    then show "c \<in> tied cs" using mx by (auto simp: tied_def)
  next
    fix c assume "c \<in> tied cs"
    then have c: "c \<in> set cs" "count_list cs k \<le> count_list cs c"
      using km(1) by (auto simp: tied_def)
    then show "c \<in> {c \<in> set cs. count_list cs c = m}"
      using mx [of c] km(2) by simp
  qed
  finally show "set cand = tied cs" .
qed

lemma case_pixel_rgb:
  "(case p of (r, g, b, a) \<Rightarrow> f (uint r, uint g, uint b)) = f (rgb_of p)"
  by (cases p) simp

lemma collect_corner_colors:
  assumes "0 < width im" and "0 < height im"
  shows "collect_colors (convert_RGBA im)
     [(0, 0), (int (width im) - 1, 0), (0, int (height im) - 1),
      (int (width im) - 1, int (height im) - 1)] [] = Inr (corner_colors im)"
proof -
  have n: "nat (int (width im) - 1) = width im - 1" "nat (int (height im) - 1) = height im - 1"
    by simp_all
  show ?thesis
    using assms
    by (simp add: getpixel_def convert_RGBA_def Let_def corner_colors_def n split: prod.splits)
qed

lemma detect_bg_color_tied:
  assumes "0 < width im" and "0 < height im"
  shows "detect_bg_color im
    = Inr (if card (tied (corner_colors im)) = 1 then the_elem (tied (corner_colors im))
           else average (tied (corner_colors im)))"
proof -
  define cs where "cs = corner_colors im"
  have ne: "cs \<noteq> []" by (simp add: cs_def corner_colors_def)
  define cnt where "cnt = most_common (Counter cs)"
  define cand where "cand = map fst (filter (\<lambda>cf. snd cf = snd (cnt ! 0)) cnt)"
  note ct0 = candidates_tied [OF ne, folded cnt_def]
  have ct: "cnt \<noteq> []" "distinct cand" "set cand = tied cs"
    using ct0 by (simp_all add: cand_def)
  have len: "length cand = card (tied cs)"
    using ct(2,3) distinct_card by fastforce
  have sums: "sum_list (map g cand) = sum g (tied cs)" for g :: "rgb \<Rightarrow> int"
    using ct(2,3) by (simp add: sum_list_distinct_conv_sum_set)
  have one: "cand ! 0 = the_elem (tied cs)" if "length cand = 1"
  proof -
    from that obtain c where "cand = [c]" by (cases cand) auto
    then show ?thesis using ct(3) by (metis empty_set list.simps(15) nth_Cons_0 the_elem_eq)
  qed
  have w: "width (convert_RGBA im) = width im" "height (convert_RGBA im) = height im"
    by (simp_all add: convert_RGBA_def)
  have "detect_bg_color im =
      (if cnt = [] then Inr (255, 255, 255)
       else if length cand = 1 then Inr (cand ! 0)
       else Inr (sum_list (map (\<lambda>c. fst c) cand) div int (length cand),
                 sum_list (map (\<lambda>c. fst (snd c)) cand) div int (length cand),
                 sum_list (map (\<lambda>c. snd (snd c)) cand) div int (length cand)))"
    unfolding detect_bg_color_def cand_def cnt_def cs_def
    by (simp only: Let_def w collect_corner_colors [OF assms] sum.case)
  then show ?thesis
    using one ct(1) by (auto simp: sums len average_def cs_def)
qed


lemma strict_winner_tied: "strict_winner cs c \<Longrightarrow> tied cs = {c}"
  by (auto simp: strict_winner_def tied_def) (metis leD le_less)+

lemma tied_single_winner:
  assumes "card (tied cs) = 1"
  shows "strict_winner cs (the_elem (tied cs))"
proof -
  from assms obtain c where t: "tied cs = {c}" by (auto simp: card_1_singleton_iff)
  then have c: "c \<in> set cs" "\<forall>d\<in>set cs. count_list cs d \<le> count_list cs c"
    by (auto simp: tied_def)
  have "count_list cs d < count_list cs c" if d: "d \<in> set cs" "d \<noteq> c" for d
  proof -
    have "d \<notin> tied cs" using t d(2) by simp
    then obtain e where "e \<in> set cs" "count_list cs d < count_list cs e"
      using d(1) by (auto simp: tied_def not_le)
    then show ?thesis using c(2) by (meson less_le_trans)
  qed
  then show ?thesis using c(1) by (simp add: strict_winner_def t)
qed

lemma two_pairs_tied:
  assumes "length cs = 4" and "A \<noteq> B" and "count_list cs A = 2" and "count_list cs B = 2"
  shows "tied cs = {A, B}"
proof -
  have ab: "A \<in> set cs" "B \<in> set cs"
    using assms(3,4) by (metis count_list_0_iff zero_neq_numeral)+
  have only: "e = A \<or> e = B" if e: "e \<in> set cs" for e
  proof (rule ccontr)
    assume n: "\<not> (e = A \<or> e = B)"
    have "sum (count_list cs) {A, B, e} \<le> sum (count_list cs) (set cs)"
      using ab e by (intro sum_mono2) auto
    also have "\<dots> = length cs" by (simp add: sum_count_set)
    finally have le: "sum (count_list cs) {A, B, e} \<le> 4" using assms(1) by simp
    have "A \<notin> {B, e}" "B \<notin> {e}" using n assms(2) by auto
    then have "sum (count_list cs) {A, B, e}
        = count_list cs A + count_list cs B + count_list cs e"
      by simp
    then have "count_list cs e = 0" using le assms(3,4) by simp
    then show False using e by (simp add: count_list_0_iff)
  qed
  have le: "count_list cs d \<le> 2" if "d \<in> set cs" for d
    using only [OF that] assms(3,4) by (metis order_refl)
  show ?thesis
  proof (intro set_eqI iffI)
    fix x assume "x \<in> tied cs"
    then have "x \<in> set cs" by (simp add: tied_def)
    then show "x \<in> {A, B}" using only by blast
  next
    fix x assume "x \<in> {A, B}"
    then have "x \<in> set cs \<and> count_list cs x = 2" using ab assms(3,4) by blast
    then show "x \<in> tied cs" using le by (simp add: tied_def)
  qed
qed

lemma average_pair:
  "A \<noteq> B \<Longrightarrow> average {A, B} = ((fst A + fst B) div 2, (fst (snd A) + fst (snd B)) div 2,
     (snd (snd A) + snd (snd B)) div 2)"
  by (simp add: average_def)

text \<open>
  C8: for an image of positive size, \<^verbatim>\<open>detect_bg_color\<close> returns, from the RGB values of
  the four corner pixels, the colour that occurs strictly more often than every other one
  when there is such a colour, and otherwise the channel-wise floor-division average of
  the colours of maximal frequency; corners coloured A, A, B, B in any order give the
  integer average of A and B.
\<close>

theorem detect_bg_color_vote:
  assumes "0 < width im" and "0 < height im"
  shows "\<exists>r. detect_bg_color im = Inr r
     \<and> (\<forall>c. strict_winner (corner_colors im) c \<longrightarrow> r = c)
     \<and> ((\<nexists>c. strict_winner (corner_colors im) c) \<longrightarrow> r = average (tied (corner_colors im)))
     \<and> (\<forall>A B. A \<noteq> B \<and> count_list (corner_colors im) A = 2
               \<and> count_list (corner_colors im) B = 2 \<longrightarrow>
            r = ((fst A + fst B) div 2, (fst (snd A) + fst (snd B)) div 2,
                 (snd (snd A) + snd (snd B)) div 2))"
proof -
  define cs where "cs = corner_colors im"
  define r where "r = (if card (tied cs) = 1 then the_elem (tied cs) else average (tied cs))"
  have d: "detect_bg_color im = Inr r"
    using detect_bg_color_tied [OF assms] by (simp add: r_def cs_def)
  have len: "length cs = 4" by (simp add: cs_def corner_colors_def)
  have win: "r = c" if "strict_winner cs c" for c
    using strict_winner_tied [OF that] by (simp add: r_def)
  have tie: "r = average (tied cs)" if "\<nexists>c. strict_winner cs c"
  proof (cases "card (tied cs) = 1")
    case True
    then have "strict_winner cs (the_elem (tied cs))" by (rule tied_single_winner)
    then show ?thesis using that by blast
  next
    case False
    then show ?thesis by (simp add: r_def)
  qed
  have pair: "r = ((fst A + fst B) div 2, (fst (snd A) + fst (snd B)) div 2,
      (snd (snd A) + snd (snd B)) div 2)"
    if "A \<noteq> B \<and> count_list cs A = 2 \<and> count_list cs B = 2" for A B
  proof -
    have t: "tied cs = {A, B}" using that len by (intro two_pairs_tied) simp_all
    have "card (tied cs) = 2" using that by (simp add: t)
    then show ?thesis using that by (simp add: r_def t average_pair)
  qed
  show ?thesis
    using d win tie pair unfolding cs_def by blast
qed

lemma sample_corners:
  "corner_colors sample = [(10, 20, 30), (12, 21, 33), (200, 100, 50), (10, 20, 30)]"
  "corner_colors striped = [(10, 20, 30), (10, 20, 30), (21, 41, 61), (21, 41, 61)]"
  by (simp_all add: corner_colors_def sample_def striped_def)

theorem detect_bg_color_vote_witness:
  "detect_bg_color sample = Inr (10, 20, 30) \<and> detect_bg_color striped = Inr (15, 30, 45)"
proof -
  have s: "0 < width sample" "0 < height sample" by (simp_all add: sample_def)
  have t: "0 < width striped" "0 < height striped" by (simp_all add: striped_def)
  have w: "strict_winner (corner_colors sample) (10, 20, 30)"
    by (simp add: sample_corners strict_winner_def)
  have c: "count_list (corner_colors striped) (10, 20, 30) = 2"
    "count_list (corner_colors striped) (21, 41, 61) = 2"
    by (simp_all add: sample_corners)
  from detect_bg_color_vote [OF s] w have a: "detect_bg_color sample = Inr (10, 20, 30)"
    by auto
  from detect_bg_color_vote [OF t] obtain r where
    r: "detect_bg_color striped = Inr r"
    and p: "\<And>A B. A \<noteq> B \<and> count_list (corner_colors striped) A = 2
               \<and> count_list (corner_colors striped) B = 2 \<Longrightarrow>
            r = ((fst A + fst B) div 2, (fst (snd A) + fst (snd B)) div 2,
                 (snd (snd A) + snd (snd B)) div 2)"
    by blast
  from p [of "(10, 20, 30)" "(21, 41, 61)"] c have "r = (15, 30, 45)" by simp
  with a r show ?thesis by simp
qed

end
